theory Spec2Isabelle
  imports Main "HOL-Library.Word"
begin

section \<open>The line parser of \<open>src/cpp/src/traj_file/process_lines.cpp\<close>\<close>

text \<open>
  The source is one function, \<open>process_lines_with_atoms\<close>, that reads the first
  \<open>n_atoms\<close> strings of a vector through a \<open>std::istringstream\<close> each, extracting
  a \<open>std::string\<close> and three \<open>float\<close>s with \<open>operator>>\<close>.  What the function does
  is decided by the standard library's formatted extraction, so the embedding has three
  layers:
  \<^item> the value type \<open>float\<close> and the conversion \<open>strtof\<close> of a decimal character
    sequence to the nearest binary32 value (round to nearest, ties to even);
  \<^item> the stream: its buffer and state bits, the \<open>sentry\<close>, the string extraction and
    the floating-point extraction (\<open>std::num_get\<close>, as implemented by the GNU C++
    library in the classic "C" locale: accumulate characters, then convert);
  \<^item> the function itself: the two vectors, the loop and the throw.
  A thrown exception is an \<open>Inl (Thrown _)\<close> result.  The two places where the C++
  function has undefined behaviour (the product \<open>n_atoms * 3\<close> overflowing \<open>int\<close>,
  and \<open>input[i]\<close> past the end of the vector) are \<open>Inl (Undefined _)\<close> results.  Such a
  result says that the execution reaches that point and no more: what the program does
  from there on is not defined, it may return, throw or crash, and differently each
  time.  It is neither a clean failure nor a statement that the call does not return.
  Exhaustion of memory (\<open>std::bad_alloc\<close>) is not modelled.
\<close>

subsection \<open>Characters\<close>

text \<open>\<open>std::isspace\<close> in the "C" locale: space, \<open>\t\<close>, \<open>\n\<close>, \<open>\v\<close>, \<open>\f\<close>, \<open>\r\<close>.\<close>

definition isspace :: "char \<Rightarrow> bool" where
  "isspace c \<longleftrightarrow>
     c = CHR '' '' \<or> c = CHR 0x09 \<or> c = CHR 0x0A \<or> c = CHR 0x0B \<or> c = CHR 0x0C \<or> c = CHR 0x0D"

definition isdigit :: "char \<Rightarrow> bool" where
  "isdigit c \<longleftrightarrow> c \<in> set ''0123456789''"

definition digit_val :: "char \<Rightarrow> int" where
  "digit_val c = of_char c - 48"

definition is_sign :: "char \<Rightarrow> bool" where
  "is_sign c \<longleftrightarrow> c = CHR ''+'' \<or> c = CHR ''-''"

definition is_e :: "char \<Rightarrow> bool" where
  "is_e c \<longleftrightarrow> c = CHR ''e'' \<or> c = CHR ''E''"

definition is_zero :: "char \<Rightarrow> bool" where
  "is_zero c \<longleftrightarrow> c = CHR ''0''"

subsection \<open>The type \<open>float\<close> and \<open>strtof\<close>\<close>

text \<open>
  A binary32 value is \<open>Float s m e\<close>, standing for \<open>(-1)^s * m * 2^e\<close>, in canonical
  form: \<open>m = 0\<close> and \<open>e = 0\<close> for a zero, \<open>2^23 \<le> m < 2^24\<close> and \<open>-149 \<le> e \<le> 104\<close>
  for a normal number, \<open>m < 2^23\<close> and \<open>e = -149\<close> for a subnormal one; or it is an
  infinity.  (The extraction never produces a NaN.)
\<close>

datatype float = Float bool int int | Infinity bool

definition zero_float :: float where
  "zero_float = Float False 0 0"

definition FLT_MAX :: "bool \<Rightarrow> float" where
  "FLT_MAX neg = Float neg (2 ^ 24 - 1) 104"

function bit_length :: "int \<Rightarrow> nat" where
  "bit_length n = (if n \<le> 0 then 0 else Suc (bit_length (n div 2)))"
  by pat_completeness auto
termination
  by (relation "measure nat") auto

declare bit_length.simps [simp del]

text \<open>The integer nearest to \<open>N / D\<close>, ties to the even one.\<close>

definition round_nearest_even :: "int \<Rightarrow> int \<Rightarrow> int" where
  "round_nearest_even N D =
     (let f = N div D; r = N mod D
      in if 2 * r < D then f else if D < 2 * r then f + 1 else if even f then f else f + 1)"

text \<open>
  The binary32 value nearest to \<open>\<plusminus> N / D\<close> (\<open>D > 0\<close>): \<open>e\<close> is \<open>\<lfloor>log\<^sub>2 (N / D)\<rfloor>\<close>, the
  unit of the last place is \<open>2^q\<close> with \<open>q = max e (-126) - 23\<close>, and a significand
  rounded up to \<open>2^24\<close> moves to the next binade.  A result beyond the largest finite
  value is an infinity, as \<open>strtof\<close> returns \<open>HUGE_VALF\<close>.
\<close>

definition binary32 :: "bool \<Rightarrow> int \<Rightarrow> int \<Rightarrow> float" where
  "binary32 neg N D =
     (if N = 0 then Float neg 0 0
      else
        let e0 = int (bit_length N) - int (bit_length D);
            e = (if D * 2 ^ nat e0 \<le> N * 2 ^ nat (- e0) then e0 else e0 - 1);
            q = max e (- 126) - 23;
            m = round_nearest_even (N * 2 ^ nat (- q)) (D * 2 ^ nat q);
            m' = (if m = 2 ^ 24 then 2 ^ 23 else m);
            q' = (if m = 2 ^ 24 then q + 1 else q)
        in if 104 < q' then Infinity neg
           else if m' = 0 then Float neg 0 0
           else Float neg m' q')"

text \<open>The value \<open>\<plusminus> M * 10^E\<close> as a binary32.\<close>

definition decimal_to_float :: "bool \<Rightarrow> int \<Rightarrow> int \<Rightarrow> float" where
  "decimal_to_float neg M E = binary32 neg (M * 10 ^ nat E) (10 ^ nat (- E))"

definition digits_value :: "string \<Rightarrow> int" where
  "digits_value ds = foldl (\<lambda>a c. 10 * a + digit_val c) 0 ds"

definition take_sign :: "string \<Rightarrow> bool \<times> string" where
  "take_sign s =
     (case s of
        [] \<Rightarrow> (False, [])
      | c # cs \<Rightarrow>
          if c = CHR ''-'' then (True, cs)
          else if c = CHR ''+'' then (False, cs)
          else (False, s))"

text \<open>
  The exponent part of a decimal floating-point constant: \<open>e\<close> or \<open>E\<close>, an optional
  sign and at least one digit; without a digit nothing is consumed.
  The result is the exponent and the characters left.
\<close>

definition strtof_exponent :: "string \<Rightarrow> int \<times> string" where
  "strtof_exponent s =
     (case s of
        [] \<Rightarrow> (0, [])
      | c # cs \<Rightarrow>
          if is_e c then
            (let (eneg, t) = take_sign cs; ed = takeWhile isdigit t
             in if ed = [] then (0, s)
                else ((if eneg then - digits_value ed else digits_value ed),
                      dropWhile isdigit t))
          else (0, s))"

text \<open>
  \<open>strtof\<close> on a character sequence without leading white space, for the decimal
  form (the extraction below hands it characters of \<open>+-0123456789.e\<close> only, so the
  hexadecimal, \<open>inf\<close> and \<open>nan\<close> forms of the C function cannot occur): an optional
  sign, a non-empty sequence of digits optionally containing the radix character, an
  optional exponent part.  The result is the value and the characters that were not
  converted (\<open>endptr\<close>); when no conversion is done the value is zero and nothing is
  consumed.
\<close>

definition strtof :: "string \<Rightarrow> float \<times> string" where
  "strtof s =
     (let (neg, s1) = take_sign s;
          ip = takeWhile isdigit s1;
          s2 = dropWhile isdigit s1;
          (fp, s3) =
            (case s2 of
               [] \<Rightarrow> ([], [])
             | c # cs \<Rightarrow>
                 if c = CHR ''.'' then (takeWhile isdigit cs, dropWhile isdigit cs)
                 else ([], s2))
      in if ip = [] \<and> fp = [] then (zero_float, s)
         else
           let (ex, s4) = strtof_exponent s3
           in (decimal_to_float neg (digits_value (ip @ fp)) (ex - int (length fp)), s4))"

text \<open>
  \<open>std::__convert_to_v\<close> for \<open>float\<close>: the conversion fails (value zero) when
  \<open>strtof\<close> converted nothing or left characters, and it fails with the largest finite
  value of that sign when the result is an infinity.  The result is the value stored
  and whether \<open>failbit\<close> is raised.
\<close>

definition convert_to_v :: "string \<Rightarrow> float \<times> bool" where
  "convert_to_v s =
     (case strtof s of
        (v, sanity) \<Rightarrow>
          if sanity = s \<or> sanity \<noteq> [] then (zero_float, True)
          else (case v of
                  Infinity neg \<Rightarrow> (FLT_MAX neg, True)
                | Float neg m e \<Rightarrow> (v, False)))"

subsection \<open>The input string stream\<close>

record istringstream =
  buf :: string
  eofbit :: bool
  failbit :: bool

definition open_stream :: "string \<Rightarrow> istringstream" where
  "open_stream s = \<lparr>buf = s, eofbit = False, failbit = False\<rparr>"

definition good :: "istringstream \<Rightarrow> bool" where
  "good iss \<longleftrightarrow> \<not> eofbit iss \<and> \<not> failbit iss"

text \<open>\<open>fail()\<close> is \<open>failbit\<close> or \<open>badbit\<close>; a string buffer never raises \<open>badbit\<close>.\<close>

definition fail :: "istringstream \<Rightarrow> bool" where
  "fail iss \<longleftrightarrow> failbit iss"

text \<open>
  The sentry of a formatted input function: a stream that is not good gets
  \<open>failbit\<close>; otherwise white space is skipped, and reaching the end of the buffer
  raises \<open>eofbit\<close> and \<open>failbit\<close>.
\<close>

definition sentry :: "istringstream \<Rightarrow> istringstream \<times> bool" where
  "sentry iss =
     (if good iss then
        (let r = dropWhile isspace (buf iss)
         in if r = [] then (iss\<lparr>buf := [], eofbit := True, failbit := True\<rparr>, False)
            else (iss\<lparr>buf := r\<rparr>, True))
      else (iss\<lparr>failbit := True\<rparr>, False))"

text \<open>
  \<open>iss >> atom\<close> for a \<open>std::string\<close>: characters up to the next white space or the
  end, where \<open>eofbit\<close> is raised; \<open>failbit\<close> when nothing was extracted.  The second
  argument is the string's value before the call, kept when the sentry fails.
\<close>

definition get_string :: "istringstream \<Rightarrow> string \<Rightarrow> istringstream \<times> string" where
  "get_string iss old =
     (case sentry iss of
        (iss', False) \<Rightarrow> (iss', old)
      | (iss', True) \<Rightarrow>
          (let tok = takeWhile (\<lambda>c. \<not> isspace c) (buf iss');
               r = dropWhile (\<lambda>c. \<not> isspace c) (buf iss')
           in (iss'\<lparr>buf := r,
                     eofbit := (eofbit iss' \<or> r = []),
                     failbit := (failbit iss' \<or> tok = [])\<rparr>, tok)))"

text \<open>
  The main loop of \<open>num_get::_M_extract_float\<close> in the "C" locale, after the sign
  and the leading zeros.  The flags are \<open>found_mantissa\<close>, \<open>found_dec\<close> and
  \<open>found_sci\<close>.  The result is what is appended to the accumulated characters
  \<open>xtrc\<close>, and the characters left in the buffer.
\<close>

fun extract_float_loop :: "bool \<Rightarrow> bool \<Rightarrow> bool \<Rightarrow> string \<Rightarrow> string \<times> string" where
  "extract_float_loop fm fd fs [] = ([], [])"
| "extract_float_loop fm fd fs (c # cs) =
     (if isdigit c then
        (let (xs, r) = extract_float_loop True fd fs cs in (c # xs, r))
      else if c = CHR ''.'' \<and> \<not> fd \<and> \<not> fs then
        (let (xs, r) = extract_float_loop fm True fs cs in (CHR ''.'' # xs, r))
      else if is_e c \<and> \<not> fs \<and> fm then
        (case cs of
           [] \<Rightarrow> ([CHR ''e''], [])
         | d # ds \<Rightarrow>
             if is_sign d then
               (let (xs, r) = extract_float_loop fm fd True ds in (CHR ''e'' # d # xs, r))
             else
               (let (xs, r) = extract_float_loop fm fd True cs in (CHR ''e'' # xs, r)))
      else ([], c # cs))"

text \<open>
  \<open>num_get::_M_extract_float\<close>: an optional sign, the leading zeros (of which one
  \<open>0\<close> is accumulated), then the loop.
\<close>

definition extract_float :: "string \<Rightarrow> string \<times> string" where
  "extract_float s =
     (let (sg, s1) =
            (case s of
               [] \<Rightarrow> ([], [])
             | c # cs \<Rightarrow> if is_sign c then ([c], cs) else ([], s));
          zs = takeWhile is_zero s1;
          s2 = dropWhile is_zero s1;
          (xs, r) = extract_float_loop (zs \<noteq> []) False False s2
      in (sg @ (if zs = [] then [] else [CHR ''0'']) @ xs, r))"

text \<open>
  \<open>iss >> x\<close> for a \<open>float\<close>: the sentry, the accumulation, the conversion;
  \<open>eofbit\<close> when the accumulation reached the end of the buffer.  The second argument
  is the variable's value before the call, kept when the sentry fails.
\<close>

definition get_float :: "istringstream \<Rightarrow> float \<Rightarrow> istringstream \<times> float" where
  "get_float iss old =
     (case sentry iss of
        (iss', False) \<Rightarrow> (iss', old)
      | (iss', True) \<Rightarrow>
          (let (xtrc, r) = extract_float (buf iss');
               (v, err) = convert_to_v xtrc
           in (iss'\<lparr>buf := r,
                     eofbit := (eofbit iss' \<or> r = []),
                     failbit := (failbit iss' \<or> err)\<rparr>, v)))"

subsection \<open>\<open>process_lines_with_atoms\<close>\<close>

datatype exn = Length_error | Runtime_error string

datatype undefined_behaviour = Signed_integer_overflow | Index_out_of_bounds

datatype error = Thrown exn | Undefined undefined_behaviour

type_synonym atom_record = "string \<times> float \<times> float \<times> float"

text \<open>
  The body of the loop on one line: \<open>iss >> atom >> x >> y >> z\<close>, and \<open>None\<close> when
  the stream has failed (the condition of the \<open>throw\<close>).  The variables \<open>x\<close>, \<open>y\<close>,
  \<open>z\<close> are not initialised in the source: their indeterminate initial values are the
  parameter \<open>u\<close>.
\<close>

definition parse_line_from :: "float \<times> float \<times> float \<Rightarrow> string \<Rightarrow> atom_record option" where
  "parse_line_from u line =
     (let (ux, uy, uz) = u;
          iss = open_stream line;
          (iss, atom) = get_string iss [];
          (iss, x) = get_float iss ux;
          (iss, y) = get_float iss uy;
          (iss, z) = get_float iss uz
      in if fail iss then None else Some (atom, x, y, z))"

text \<open>
  The loop \<open>for (int i = 0; i < n_atoms; i++)\<close>.  It is entered with
  \<open>0 \<le> n_atoms\<close> only, so the counters are natural numbers here.  \<open>u i\<close> is what
  the uninitialised \<open>x\<close>, \<open>y\<close>, \<open>z\<close> hold in iteration \<open>i\<close>.
\<close>

function loop ::
  "(nat \<Rightarrow> float \<times> float \<times> float) \<Rightarrow> string list \<Rightarrow> nat \<Rightarrow> nat \<Rightarrow>
     string list \<Rightarrow> float list \<Rightarrow> error + (string list \<times> float list)"
where
  "loop u input n_atoms i atoms xyz =
     (if i < n_atoms then
        (if length input \<le> i then Inl (Undefined Index_out_of_bounds)
         else
           case parse_line_from (u i) (input ! i) of
             None \<Rightarrow> Inl (Thrown (Runtime_error ''Could not parse line''))
           | Some (atom, x, y, z) \<Rightarrow>
               loop u input n_atoms (i + 1)
                 (atoms[i := atom])
                 (xyz[i * 3 + 0 := x, i * 3 + 1 := y, i * 3 + 2 := z]))
      else Inr (atoms, xyz))"
  by pat_completeness auto
termination
  by (relation "measure (\<lambda>(u, input, n_atoms, i, atoms, xyz). n_atoms - i)") auto

declare loop.simps [simp del]

definition INT_MAX :: int where
  "INT_MAX = 2 ^ 31 - 1"

text \<open>
  The function.  \<open>std::vector<std::string> atoms(n_atoms)\<close> converts the count to
  \<open>size_t\<close>; a negative count becomes a size beyond \<open>max_size()\<close> and the constructor
  throws \<open>std::length_error\<close> (\<open>std::bad_alloc\<close> from the allocator in older versions
  of the library).  \<open>n_atoms * 3\<close> is a product of \<open>int\<close>s, evaluated after \<open>atoms\<close>
  is constructed.
\<close>

definition process_lines_with_atoms_from ::
  "(nat \<Rightarrow> float \<times> float \<times> float) \<Rightarrow> string list \<Rightarrow> 32 word \<Rightarrow>
     error + (string list \<times> float list)"
where
  "process_lines_with_atoms_from u input n_atoms =
     (let n = sint n_atoms
      in if n < 0 then Inl (Thrown Length_error)
         else if INT_MAX < n * 3 then Inl (Undefined Signed_integer_overflow)
         else loop u input (nat n) 0 (replicate (nat n) []) (replicate (nat (n * 3)) zero_float))"

text \<open>
  The function with the uninitialised variables holding zeros.  That the choice does not
  matter is \<open>process_lines_with_atoms_from_any\<close> below.
\<close>

definition process_lines_with_atoms ::
  "string list \<Rightarrow> 32 word \<Rightarrow> error + (string list \<times> float list)"
where
  "process_lines_with_atoms input n_atoms =
     process_lines_with_atoms_from (\<lambda>i. (zero_float, zero_float, zero_float)) input n_atoms"

definition parse_line :: "string \<Rightarrow> atom_record option" where
  "parse_line line = parse_line_from (zero_float, zero_float, zero_float) line"

subsection \<open>The words of the specification\<close>

text \<open>
  A token is a maximal run of characters that are not white space: the line is split
  at every white-space character and the empty pieces are dropped.
\<close>

fun split_ws :: "string \<Rightarrow> string list" where
  "split_ws [] = [[]]"
| "split_ws (c # cs) =
     (if isspace c then [] # split_ws cs
      else (case split_ws cs of [] \<Rightarrow> [[c]] | t # ts \<Rightarrow> (c # t) # ts))"

definition tokens :: "string \<Rightarrow> string list" where
  "tokens s = filter (\<lambda>t. t \<noteq> []) (split_ws s)"

text \<open>
  A token read as a floating-point number in decimal notation: an optional sign, digits
  with an optional decimal point (at least one digit before or after it), and an optional
  exponent marker with an optional sign and at least one digit.  The value of such a
  literal is the nearest binary32, an infinity beyond the finite range, as the standard
  conversion of text to \<open>float\<close> gives it.
\<close>

definition exponent_of :: "string \<Rightarrow> int option" where
  "exponent_of ex =
     (case ex of
        [] \<Rightarrow> Some 0
      | c # cs \<Rightarrow>
          (let (eneg, ed) = take_sign cs
           in if ed \<noteq> [] \<and> list_all isdigit ed
              then Some (if eneg then - digits_value ed else digits_value ed)
              else None))"

definition decimal_literal :: "string \<Rightarrow> float option" where
  "decimal_literal t =
     (let (neg, body) = take_sign t;
          mant = takeWhile (\<lambda>c. \<not> is_e c) body;
          ex = dropWhile (\<lambda>c. \<not> is_e c) body;
          ip = takeWhile (\<lambda>c. c \<noteq> CHR ''.'') mant;
          fp = tl (dropWhile (\<lambda>c. c \<noteq> CHR ''.'') mant)
      in if list_all isdigit ip \<and> list_all isdigit fp \<and> (ip \<noteq> [] \<or> fp \<noteq> []) then
           (case exponent_of ex of
              None \<Rightarrow> None
            | Some e \<Rightarrow> Some (decimal_to_float neg (digits_value (ip @ fp)) (e - int (length fp))))
         else None)"

text \<open>
  A token is a \<open>float\<close> when it is a decimal literal whose value is finite: the
  extraction of a \<open>float\<close> fails on a value beyond the range.
\<close>

definition float_of_token :: "string \<Rightarrow> float option" where
  "float_of_token t =
     (case decimal_literal t of
        None \<Rightarrow> None
      | Some (Infinity s) \<Rightarrow> None
      | Some (Float s m q) \<Rightarrow> Some (Float s m q))"

text \<open>
  A well-formed line has at least four tokens, of which the second, third and fourth are
  \<open>float\<close>s; its record is the first token and the three values.
\<close>

definition record_of :: "string \<Rightarrow> atom_record option" where
  "record_of line =
     (case tokens line of
        a # t1 # t2 # t3 # rest \<Rightarrow>
          (case (float_of_token t1, float_of_token t2, float_of_token t3) of
             (Some x, Some y, Some z) \<Rightarrow> Some (a, x, y, z)
           | _ \<Rightarrow> None)
      | _ \<Rightarrow> None)"

definition well_formed :: "string \<Rightarrow> bool" where
  "well_formed line \<longleftrightarrow> record_of line \<noteq> None"

text \<open>
  A token begins with a number when, after an optional sign, it has a digit, or a point
  and a digit.  A line has a non-numeric field when the first of its second, third and
  fourth tokens that is no \<open>float\<close> does not begin with a number.
\<close>

definition begins_with_number :: "string \<Rightarrow> bool" where
  "begins_with_number t \<longleftrightarrow>
     (case snd (take_sign t) of
        [] \<Rightarrow> False
      | c # cs \<Rightarrow> isdigit c \<or> (c = CHR ''.'' \<and> (case cs of [] \<Rightarrow> False | d # ds \<Rightarrow> isdigit d)))"

definition nonnumeric_field :: "string \<Rightarrow> bool" where
  "nonnumeric_field line \<longleftrightarrow>
     (case dropWhile (\<lambda>t. float_of_token t \<noteq> None) (take 3 (tl (tokens line))) of
        [] \<Rightarrow> False
      | t # ts \<Rightarrow> \<not> begins_with_number t)"

text \<open>The characters a decimal literal can contain.\<close>

definition numeric_char :: "char \<Rightarrow> bool" where
  "numeric_char c \<longleftrightarrow> isdigit c \<or> c = CHR ''.'' \<or> is_e c \<or> is_sign c"

text \<open>
  The inputs on which the behaviour of the call is defined: the count is negative (the
  constructor throws), or \<open>n_atoms * 3\<close> is in the range of \<open>int\<close> and the input has
  at least \<open>n_atoms\<close> lines or a line on which the extraction fails (the loop throws
  before it comes to the end of the input).
\<close>

definition behaviour_defined :: "string list \<Rightarrow> 32 word \<Rightarrow> bool" where
  "behaviour_defined input n_atoms \<longleftrightarrow>
     sint n_atoms < 0 \<or>
     (sint n_atoms * 3 \<le> INT_MAX \<and>
      (nat (sint n_atoms) \<le> length input \<or> list_ex (\<lambda>line. parse_line line = None) input))"

subsection \<open>Notions used in the proofs\<close>

text \<open>
  The parts of a decimal literal (sign, integer part, fraction with its point, exponent
  part), what the accumulation makes of them, and the layout of the result.
\<close>

definition stops :: "string \<Rightarrow> bool" where
  "stops r \<longleftrightarrow> r = [] \<or> (\<not> isdigit (hd r) \<and> hd r \<noteq> CHR ''.'' \<and> \<not> is_e (hd r))"

definition sign_chars :: "string \<Rightarrow> bool" where
  "sign_chars sg \<longleftrightarrow> sg = [] \<or> sg = ''+'' \<or> sg = ''-''"

definition exponent_part :: "string \<Rightarrow> bool" where
  "exponent_part ex \<longleftrightarrow>
     ex = [] \<or>
     (\<exists>c esg ed. ex = c # esg @ ed \<and> is_e c \<and> sign_chars esg \<and> ed \<noteq> [] \<and> list_all isdigit ed)"

definition literal_parts :: "string \<Rightarrow> string \<Rightarrow> string \<Rightarrow> string \<Rightarrow> bool" where
  "literal_parts sg ip fr ex \<longleftrightarrow>
     sign_chars sg \<and> list_all isdigit ip \<and> (fr = [] \<or> hd fr = CHR ''.'') \<and>
     list_all isdigit (tl fr) \<and> (ip \<noteq> [] \<or> tl fr \<noteq> []) \<and> exponent_part ex"

definition lower_e :: "string \<Rightarrow> string" where
  "lower_e ex = (case ex of [] \<Rightarrow> [] | c # cs \<Rightarrow> CHR ''e'' # cs)"

definition literal_value :: "bool \<Rightarrow> string \<Rightarrow> string \<Rightarrow> string \<Rightarrow> float" where
  "literal_value neg ip fr ex =
     decimal_to_float neg (digits_value (ip @ tl fr)) (the (exponent_of ex) - int (length (tl fr)))"

definition leading_zero :: "string \<Rightarrow> string" where
  "leading_zero ip = (if takeWhile is_zero ip = [] then [] else ''0'')"

definition label_of :: "atom_record \<Rightarrow> string" where
  "label_of r = fst r"

definition coords_of :: "atom_record \<Rightarrow> float list" where
  "coords_of r = (case r of (a, x, y, z) \<Rightarrow> [x, y, z])"

definition parse_error :: error where
  "parse_error = Thrown (Runtime_error ''Could not parse line'')"

section \<open>Properties of the stream and of the loop\<close>

subsection \<open>Characters\<close>

lemma isdigit_not_others:
  "isdigit c \<Longrightarrow> \<not> isspace c \<and> \<not> is_e c \<and> \<not> is_sign c \<and> c \<noteq> CHR ''.''"
  by (auto simp: isdigit_def isspace_def is_e_def is_sign_def)

lemma isspace_not_others:
  "isspace c \<Longrightarrow> \<not> isdigit c \<and> \<not> is_e c \<and> \<not> is_sign c \<and> c \<noteq> CHR ''.'' \<and> \<not> is_zero c"
  by (auto simp: isdigit_def isspace_def is_e_def is_sign_def is_zero_def)

lemma is_e_not_others:
  "is_e c \<Longrightarrow> \<not> isdigit c \<and> \<not> isspace c \<and> \<not> is_sign c \<and> c \<noteq> CHR ''.'' \<and> \<not> is_zero c"
  by (auto simp: isdigit_def isspace_def is_e_def is_sign_def is_zero_def)

lemma is_sign_not_others:
  "is_sign c \<Longrightarrow> \<not> isdigit c \<and> \<not> isspace c \<and> \<not> is_e c \<and> c \<noteq> CHR ''.'' \<and> \<not> is_zero c"
  by (auto simp: isdigit_def isspace_def is_e_def is_sign_def is_zero_def)

lemma point_not_others:
  "\<not> isdigit (CHR ''.'') \<and> \<not> isspace (CHR ''.'') \<and> \<not> is_e (CHR ''.'') \<and>
   \<not> is_sign (CHR ''.'') \<and> \<not> is_zero (CHR ''.'')"
  by (simp add: isdigit_def isspace_def is_e_def is_sign_def is_zero_def)

lemma is_zero_isdigit: "is_zero c \<Longrightarrow> isdigit c"
  by (simp add: is_zero_def isdigit_def)

lemma digit_val_zero: "is_zero c \<Longrightarrow> digit_val c = 0"
  by (simp add: is_zero_def digit_val_def)

subsection \<open>Tokens\<close>

lemma split_ws_not_Nil: "split_ws s \<noteq> []"
  by (induction s) (auto split: list.splits)

lemma tokens_Nil: "tokens [] = []"
  by (simp add: tokens_def)

lemma tokens_space: "isspace c \<Longrightarrow> tokens (c # cs) = tokens cs"
  by (simp add: tokens_def)

lemma split_ws_hd_tl:
  "hd (split_ws cs) = takeWhile (\<lambda>c. \<not> isspace c) cs \<and>
   filter (\<lambda>t. t \<noteq> []) (tl (split_ws cs)) = tokens (dropWhile (\<lambda>c. \<not> isspace c) cs)"
proof (induction cs)
  case Nil
  then show ?case by (simp add: tokens_def)
next
  case (Cons d ds)
  show ?case
  proof (cases "isspace d")
    case True
    then show ?thesis by (simp add: tokens_def)
  next
    case False
    obtain t ts where ts: "split_ws ds = t # ts"
      using split_ws_not_Nil[of ds] by (cases "split_ws ds") auto
    with Cons False show ?thesis by simp
  qed
qed

lemma tokens_nonspace:
  "\<not> isspace c \<Longrightarrow>
   tokens (c # cs) =
     (c # takeWhile (\<lambda>c. \<not> isspace c) cs) # tokens (dropWhile (\<lambda>c. \<not> isspace c) cs)"
  using split_ws_hd_tl[of cs] split_ws_not_Nil[of cs]
  by (cases "split_ws cs") (auto simp: tokens_def)

lemma tokens_dropWhile: "tokens (dropWhile isspace s) = tokens s"
  by (induction s) (auto simp: tokens_space)

text \<open>The first token and the rest of the line, as the stream finds them.\<close>

lemma tokens_Cons_iff:
  "tokens s = t # ts \<longleftrightarrow>
     dropWhile isspace s \<noteq> [] \<and>
     t = takeWhile (\<lambda>c. \<not> isspace c) (dropWhile isspace s) \<and>
     ts = tokens (dropWhile (\<lambda>c. \<not> isspace c) (dropWhile isspace s))"
proof (cases "dropWhile isspace s")
  case Nil
  have "tokens s = tokens (dropWhile isspace s)"
    by (rule tokens_dropWhile[symmetric])
  also have "\<dots> = []"
    unfolding Nil by (rule tokens_Nil)
  finally show ?thesis using Nil by simp
next
  case (Cons c cs)
  then have "\<not> isspace c"
    using hd_dropWhile[of isspace s] by auto
  then have "tokens s = (c # takeWhile (\<lambda>c. \<not> isspace c) cs) # tokens (dropWhile (\<lambda>c. \<not> isspace c) cs)"
    using tokens_dropWhile[of s] Cons by (simp add: tokens_nonspace)
  with Cons \<open>\<not> isspace c\<close> show ?thesis by auto
qed

lemma tokens_Nil_iff: "tokens s = [] \<longleftrightarrow> dropWhile isspace s = []"
  using tokens_Cons_iff[of s] by (cases "tokens s") auto

subsection \<open>Runs of characters\<close>

lemma takeWhile_run: "list_all P xs \<Longrightarrow> ys = [] \<or> \<not> P (hd ys) \<Longrightarrow> takeWhile P (xs @ ys) = xs"
  by (induction xs) (cases ys; auto)+

lemma dropWhile_run: "list_all P xs \<Longrightarrow> ys = [] \<or> \<not> P (hd ys) \<Longrightarrow> dropWhile P (xs @ ys) = ys"
  by (induction xs) (cases ys; auto)+

lemma digits_value_append: "digits_value (xs @ ys) = foldl (\<lambda>a c. 10 * a + digit_val c) (digits_value xs) ys"
  by (simp add: digits_value_def)

lemma digits_value_zeros: "list_all is_zero zs \<Longrightarrow> digits_value zs = 0"
  unfolding digits_value_def
  by (induction zs rule: rev_induct) (auto simp: digit_val_zero)

lemma digits_value_leading_zeros:
  "list_all is_zero zs \<Longrightarrow> digits_value (zs @ ds) = digits_value ds"
  by (simp add: digits_value_append digits_value_zeros) (simp add: digits_value_def)

subsection \<open>The accumulation loop on the parts of a literal\<close>

lemma efl_stop: "stops r \<Longrightarrow> extract_float_loop fm fd fs r = ([], r)"
  by (cases r) (auto simp: stops_def)

lemma efl_digits:
  "list_all isdigit ds \<Longrightarrow>
   extract_float_loop fm fd fs (ds @ s) =
     (ds @ fst (extract_float_loop (fm \<or> ds \<noteq> []) fd fs s),
      snd (extract_float_loop (fm \<or> ds \<noteq> []) fd fs s))"
  by (induction ds arbitrary: fm) (auto simp: split_beta)

lemma efl_point:
  "extract_float_loop fm False False (CHR ''.'' # s) =
     (CHR ''.'' # fst (extract_float_loop fm True False s),
      snd (extract_float_loop fm True False s))"
  using point_not_others by (simp add: split_beta)

lemma efl_exp:
  assumes "is_e c" and "sign_chars esg" and "ed \<noteq> []" and "list_all isdigit ed" and "stops r"
  shows "extract_float_loop True fd False (c # esg @ ed @ r) = (CHR ''e'' # esg @ ed, r)"
proof -
  have c: "\<not> isdigit c" "c \<noteq> CHR ''.''"
    using assms(1) is_e_not_others by auto
  have tail: "extract_float_loop True fd True (ed @ r) = (ed, r)"
    using assms by (simp add: efl_digits efl_stop)
  obtain d ds where ed: "ed = d # ds"
    using assms(3) by (cases ed) auto
  then have d: "isdigit d" using assms(4) by simp
  then have nd: "\<not> is_sign d" using isdigit_not_others by blast
  from assms(2) consider "esg = []" | "esg = ''+''" | "esg = ''-''"
    by (auto simp: sign_chars_def)
  then show ?thesis
  proof cases
    case 1
    then show ?thesis
      using c assms(1) nd tail by (simp add: ed)
  next
    case 2
    then show ?thesis
      using c assms(1) tail by (simp add: is_sign_def)
  next
    case 3
    then show ?thesis
      using c assms(1) tail by (simp add: is_sign_def)
  qed
qed

subsection \<open>The parts of a decimal literal\<close>

lemma take_sign_parts:
  "sign_chars sg \<Longrightarrow> b = [] \<or> \<not> is_sign (hd b) \<Longrightarrow> take_sign (sg @ b) = (sg = ''-'', b)"
  by (cases b) (auto simp: sign_chars_def take_sign_def is_sign_def)

lemma take_sign_decomp:
  assumes "take_sign s = (neg, b)"
  obtains sg where "s = sg @ b" and "sign_chars sg" and "neg = (sg = ''-'')"
proof (cases s)
  case Nil
  with assms have "s = [] @ b" "sign_chars []" "neg = ([] = ''-'')"
    by (auto simp: take_sign_def sign_chars_def)
  then show ?thesis by (rule that)
next
  case (Cons c cs)
  consider "c = CHR ''-''" | "c = CHR ''+''" | "c \<noteq> CHR ''-''" "c \<noteq> CHR ''+''"
    by blast
  then show ?thesis
  proof cases
    case 1
    with assms Cons have "s = ''-'' @ b" "sign_chars ''-''" "neg = (''-'' = ''-'')"
      by (auto simp: take_sign_def sign_chars_def)
    then show ?thesis by (rule that)
  next
    case 2
    with assms Cons have "s = ''+'' @ b" "sign_chars ''+''" "neg = (''+'' = ''-'')"
      by (auto simp: take_sign_def sign_chars_def)
    then show ?thesis by (rule that)
  next
    case 3
    with assms Cons have "s = [] @ b" "sign_chars []" "neg = ([] = ''-'')"
      by (auto simp: take_sign_def sign_chars_def)
    then show ?thesis by (rule that)
  qed
qed

lemma digits_not_sign: "list_all isdigit ed \<Longrightarrow> ed = [] \<or> \<not> is_sign (hd ed)"
  by (cases ed) (auto dest: isdigit_not_others)

lemma exponent_of_Some_part:
  assumes "exponent_of ex = Some e" and "ex = [] \<or> is_e (hd ex)"
  shows "exponent_part ex"
proof (cases ex)
  case Nil
  then show ?thesis by (simp add: exponent_part_def)
next
  case (Cons c cs)
  obtain eneg ed where ts: "take_sign cs = (eneg, ed)"
    by (cases "take_sign cs") auto
  with assms(1) Cons have ed: "ed \<noteq> []" "list_all isdigit ed"
    by (auto simp: exponent_of_def split: if_splits)
  from ts obtain esg where "cs = esg @ ed" "sign_chars esg"
    by (rule take_sign_decomp)
  with Cons assms(2) ed show ?thesis
    by (auto simp: exponent_part_def)
qed

lemma exponent_of_part:
  assumes "is_e c" and "sign_chars esg" and "ed \<noteq> []" and "list_all isdigit ed"
  shows "exponent_of (c # esg @ ed) = Some (if esg = ''-'' then - digits_value ed else digits_value ed)"
  using assms take_sign_parts[OF assms(2) digits_not_sign[OF assms(4)]]
  by (simp add: exponent_of_def)

lemma strtof_exponent_part:
  assumes "exponent_part ex"
  shows "strtof_exponent (lower_e ex) = (the (exponent_of ex), [])"
proof (cases "ex = []")
  case True
  then show ?thesis
    by (simp add: lower_e_def strtof_exponent_def exponent_of_def)
next
  case False
  with assms obtain c esg ed where
    ex: "ex = c # esg @ ed" and p: "is_e c" "sign_chars esg" "ed \<noteq> []" "list_all isdigit ed"
    by (auto simp: exponent_part_def)
  have ts: "take_sign (esg @ ed) = (esg = ''-'', ed)"
    using take_sign_parts[OF p(2) digits_not_sign[OF p(4)]] .
  have tw: "takeWhile isdigit ed = ed" and dw: "dropWhile isdigit ed = []"
    using takeWhile_run[OF p(4), of "[]"] dropWhile_run[OF p(4), of "[]"] by simp_all
  show ?thesis
    using p(3)
    by (simp add: ex lower_e_def strtof_exponent_def exponent_of_part[OF p] is_e_def ts tw dw)
qed

lemma efl_tail:
  assumes "exponent_part ex" and "stops r"
  shows "extract_float_loop True fd False (ex @ r) = (lower_e ex, r)"
proof (cases "ex = []")
  case True
  then show ?thesis using assms(2) by (simp add: lower_e_def efl_stop)
next
  case False
  with assms obtain c esg ed where
    ex: "ex = c # esg @ ed" and p: "is_e c" "sign_chars esg" "ed \<noteq> []" "list_all isdigit ed"
    by (auto simp: exponent_part_def)
  show ?thesis
    using efl_exp[OF p assms(2), of fd] by (simp add: ex lower_e_def)
qed

lemma efl_frac:
  assumes "fr = [] \<or> hd fr = CHR ''.''" and "list_all isdigit (tl fr)" and "fm \<or> tl fr \<noteq> []"
    and "exponent_part ex" and "stops r"
  shows "extract_float_loop fm False False (fr @ ex @ r) = (fr @ lower_e ex, r)"
proof (cases fr)
  case Nil
  with assms(3) have "fm" by simp
  with Nil show ?thesis using efl_tail[OF assms(4,5)] by simp
next
  case (Cons c fp)
  with assms have c: "c = CHR ''.''" and fp: "list_all isdigit fp" and fm: "fm \<or> fp \<noteq> []"
    by simp_all
  show ?thesis
    using fm by (simp add: Cons c efl_point efl_digits[OF fp] efl_tail[OF assms(4,5)])
qed

lemma takeWhile_before: "ys = [] \<or> \<not> P (hd ys) \<Longrightarrow> takeWhile P (xs @ ys) = takeWhile P xs"
  by (induction xs) (cases ys; auto)+

lemma dropWhile_before: "ys = [] \<or> \<not> P (hd ys) \<Longrightarrow> dropWhile P (xs @ ys) = dropWhile P xs @ ys"
  by (induction xs) (cases ys; auto)+

lemma list_all_dropWhile: "list_all P xs \<Longrightarrow> list_all P (dropWhile Q xs)"
  by (induction xs) auto

lemma list_all_takeWhile_same: "list_all P (takeWhile P xs)"
  by (induction xs) auto

text \<open>What follows the integer part of a literal does not begin with a digit.\<close>

lemma after_digits:
  assumes "fr = [] \<or> hd fr = CHR ''.''" and "exponent_part ex" and "stops r"
  shows "fr @ ex @ r = [] \<or> (\<not> isdigit (hd (fr @ ex @ r)) \<and> \<not> is_zero (hd (fr @ ex @ r)))"
proof (cases fr)
  case (Cons c cs)
  with assms(1) show ?thesis using point_not_others by simp
next
  case Nil
  show ?thesis
  proof (cases "ex = []")
    case True
    with Nil assms(3) show ?thesis
      by (cases r) (auto simp: stops_def dest: is_zero_isdigit)
  next
    case False
    with assms(2) obtain c cs where "ex = c # cs" "is_e c"
      by (auto simp: exponent_part_def)
    with Nil show ?thesis using is_e_not_others by simp
  qed
qed

lemma after_point:
  assumes "exponent_part ex"
  shows "lower_e ex = [] \<or> (\<not> isdigit (hd (lower_e ex)) \<and> hd (lower_e ex) \<noteq> CHR ''.'')"
  by (cases ex) (simp_all add: lower_e_def isdigit_def)

lemma extract_float_parts:
  assumes "literal_parts sg ip fr ex" and "stops r"
  shows "extract_float (sg @ ip @ fr @ ex @ r) =
           (sg @ leading_zero ip @ dropWhile is_zero ip @ fr @ lower_e ex, r)"
proof -
  from assms(1) have sg: "sign_chars sg" and ip: "list_all isdigit ip"
    and fr: "fr = [] \<or> hd fr = CHR ''.''" "list_all isdigit (tl fr)"
    and ne: "ip \<noteq> [] \<or> tl fr \<noteq> []" and ex: "exponent_part ex"
    by (simp_all add: literal_parts_def)
  let ?rest = "fr @ ex @ r"
  let ?body = "ip @ ?rest"
  have rest: "?rest = [] \<or> (\<not> isdigit (hd ?rest) \<and> \<not> is_zero (hd ?rest))"
    using after_digits[OF fr(1) ex assms(2)] .
  have body_ne: "?body \<noteq> []" using ne by (cases fr) auto
  have hd_body: "\<not> is_sign (hd ?body)"
  proof (cases ip)
    case Nil
    with ne fr(1) have "hd ?body = CHR ''.''" by (cases fr) auto
    then show ?thesis by (simp add: is_sign_def)
  next
    case (Cons d ds)
    with ip have "isdigit d" by simp
    with Cons show ?thesis using isdigit_not_others by simp
  qed
  have sign_step:
    "(case sg @ ?body of [] \<Rightarrow> ([], []) | c # cs \<Rightarrow> if is_sign c then ([c], cs) else ([], sg @ ?body)) =
     (sg, ?body)"
  proof -
    obtain b bs where b: "?body = b # bs" using body_ne by (cases ?body) auto
    with hd_body have "\<not> is_sign b" by simp
    with sg b show ?thesis
      unfolding b by (auto simp: sign_chars_def is_sign_def)
  qed
  have tz: "takeWhile is_zero ?body = takeWhile is_zero ip"
    using rest by (intro takeWhile_before) auto
  have dz: "dropWhile is_zero ?body = dropWhile is_zero ip @ ?rest"
    using rest by (intro dropWhile_before) auto
  have ip': "list_all isdigit (dropWhile is_zero ip)"
    using ip by (rule list_all_dropWhile)
  have fm: "(takeWhile is_zero ip \<noteq> [] \<or> dropWhile is_zero ip \<noteq> []) = (ip \<noteq> [])"
    by (metis takeWhile_dropWhile_id append_is_Nil_conv)
  have loop: "extract_float_loop (takeWhile is_zero ip \<noteq> []) False False (dropWhile is_zero ip @ ?rest) =
      (dropWhile is_zero ip @ fr @ lower_e ex, r)"
    unfolding efl_digits[OF ip'] fm
    using efl_frac[OF fr _ ex assms(2), of "ip \<noteq> []"] ne by simp
  show ?thesis
    unfolding extract_float_def sign_step
    by (simp add: tz dz loop leading_zero_def)
qed

lemma strtof_parts:
  assumes "literal_parts sg ip fr ex"
  shows "strtof (sg @ ip @ fr @ lower_e ex) = (literal_value (sg = ''-'') ip fr ex, [])"
proof -
  from assms(1) have sg: "sign_chars sg" and ip: "list_all isdigit ip"
    and fr: "fr = [] \<or> hd fr = CHR ''.''" "list_all isdigit (tl fr)"
    and ne: "ip \<noteq> [] \<or> tl fr \<noteq> []" and ex: "exponent_part ex"
    by (simp_all add: literal_parts_def)
  let ?body = "ip @ fr @ lower_e ex"
  have lo: "lower_e ex = [] \<or> (\<not> isdigit (hd (lower_e ex)) \<and> hd (lower_e ex) \<noteq> CHR ''.'')"
    using after_point[OF ex] .
  have body: "?body = [] \<or> \<not> is_sign (hd ?body)"
  proof (cases ip)
    case Nil
    with ne fr(1) have "hd ?body = CHR ''.''" by (cases fr) auto
    then show ?thesis by (simp add: is_sign_def)
  next
    case (Cons d ds)
    with ip have "isdigit d" by simp
    with Cons show ?thesis using isdigit_not_others by simp
  qed
  have ts: "take_sign (sg @ ?body) = (sg = ''-'', ?body)"
    using take_sign_parts[OF sg body] .
  have after: "fr @ lower_e ex = [] \<or> \<not> isdigit (hd (fr @ lower_e ex))"
    using fr(1) lo point_not_others by (cases fr) auto
  have tw: "takeWhile isdigit ?body = ip" and dw: "dropWhile isdigit ?body = fr @ lower_e ex"
    using takeWhile_run[OF ip after] dropWhile_run[OF ip after] by simp_all
  have after2: "lower_e ex = [] \<or> \<not> isdigit (hd (lower_e ex))"
    using lo by auto
  have frac:
    "(case fr @ lower_e ex of [] \<Rightarrow> ([], [])
      | c # cs \<Rightarrow> if c = CHR ''.'' then (takeWhile isdigit cs, dropWhile isdigit cs)
                  else ([], fr @ lower_e ex)) = (tl fr, lower_e ex)"
  proof (cases fr)
    case Nil
    with lo show ?thesis by (cases "lower_e ex") auto
  next
    case (Cons c fp)
    with fr have "c = CHR ''.''" "list_all isdigit fp" by simp_all
    with Cons show ?thesis
      using takeWhile_run[OF \<open>list_all isdigit fp\<close> after2] dropWhile_run[OF \<open>list_all isdigit fp\<close> after2]
      by simp
  qed
  have ne': "\<not> (ip = [] \<and> tl fr = [])"
    using ne by blast
  show ?thesis
    unfolding strtof_def ts
    by (simp add: tw dw frac ne' strtof_exponent_part[OF ex] literal_value_def)
qed

lemma literal_parts_leading_zero:
  assumes "literal_parts sg ip fr ex"
  shows "literal_parts sg (leading_zero ip @ dropWhile is_zero ip) fr ex"
    and "literal_value neg (leading_zero ip @ dropWhile is_zero ip) fr ex = literal_value neg ip fr ex"
proof -
  from assms have ip: "list_all isdigit ip" by (simp add: literal_parts_def)
  have z: "list_all is_zero (leading_zero ip)" "list_all isdigit (leading_zero ip)"
    by (simp_all add: leading_zero_def is_zero_def isdigit_def)
  have ne: "(leading_zero ip @ dropWhile is_zero ip = []) = (ip = [])"
    by (cases ip) (auto simp: leading_zero_def)
  show "literal_parts sg (leading_zero ip @ dropWhile is_zero ip) fr ex"
    using assms z(2) list_all_dropWhile[OF ip, of is_zero] ne
    by (simp add: literal_parts_def)
  have "digits_value ((leading_zero ip @ dropWhile is_zero ip) @ tl fr) =
        digits_value (dropWhile is_zero ip @ tl fr)"
    using digits_value_leading_zeros[OF z(1)] by simp
  also have "\<dots> = digits_value (takeWhile is_zero ip @ dropWhile is_zero ip @ tl fr)"
    using digits_value_leading_zeros[OF list_all_takeWhile_same] by simp
  also have "\<dots> = digits_value (ip @ tl fr)"
    by (metis append.assoc takeWhile_dropWhile_id)
  finally show "literal_value neg (leading_zero ip @ dropWhile is_zero ip) fr ex = literal_value neg ip fr ex"
    by (simp add: literal_value_def)
qed

lemma decimal_literal_parts:
  assumes "decimal_literal t = Some v"
  obtains sg ip fr ex where "t = sg @ ip @ fr @ ex" and "literal_parts sg ip fr ex"
    and "literal_value (sg = ''-'') ip fr ex = v"
proof -
  obtain neg body where ts: "take_sign t = (neg, body)"
    by (cases "take_sign t") auto
  then obtain sg where sg: "t = sg @ body" "sign_chars sg" "neg = (sg = ''-'')"
    by (rule take_sign_decomp)
  define mant where "mant = takeWhile (\<lambda>c. \<not> is_e c) body"
  define ex where "ex = dropWhile (\<lambda>c. \<not> is_e c) body"
  define ip where "ip = takeWhile (\<lambda>c. c \<noteq> CHR ''.'') mant"
  define fr where "fr = dropWhile (\<lambda>c. c \<noteq> CHR ''.'') mant"
  have "mant = ip @ fr" "body = mant @ ex"
    by (simp_all add: mant_def ex_def ip_def fr_def)
  then have body: "body = ip @ fr @ ex"
    by simp
  have hd_ex: "ex = [] \<or> is_e (hd ex)"
    unfolding ex_def using hd_dropWhile[of "\<lambda>c. \<not> is_e c" body] by blast
  have hd_fr: "fr = [] \<or> hd fr = CHR ''.''"
    unfolding fr_def using hd_dropWhile[of "\<lambda>c. c \<noteq> CHR ''.''" mant] by blast
  have eq: "decimal_literal t =
      (if list_all isdigit ip \<and> list_all isdigit (tl fr) \<and> (ip \<noteq> [] \<or> tl fr \<noteq> []) then
         (case exponent_of ex of
            None \<Rightarrow> None
          | Some e \<Rightarrow> Some (decimal_to_float neg (digits_value (ip @ tl fr)) (e - int (length (tl fr)))))
       else None)"
    by (simp only: decimal_literal_def ts Let_def prod.case mant_def ex_def ip_def fr_def)
  from assms have cond: "list_all isdigit ip" "list_all isdigit (tl fr)" "ip \<noteq> [] \<or> tl fr \<noteq> []"
    unfolding eq by (simp_all split: if_splits)
  from assms cond obtain e where e: "exponent_of ex = Some e"
    unfolding eq by (cases "exponent_of ex") simp_all
  from assms cond e have
    v: "decimal_to_float neg (digits_value (ip @ tl fr)) (e - int (length (tl fr))) = v"
    unfolding eq by simp
  have "literal_parts sg ip fr ex"
    using sg(2) cond hd_fr exponent_of_Some_part[OF e hd_ex] by (simp add: literal_parts_def)
  moreover have "literal_value (sg = ''-'') ip fr ex = v"
    using v e sg(3) by (simp add: literal_value_def)
  moreover have "t = sg @ ip @ fr @ ex"
    using sg(1) body by simp
  ultimately show ?thesis using that by blast
qed

lemma float_of_token_Some:
  "float_of_token t = Some v \<longleftrightarrow> decimal_literal t = Some v \<and> (\<exists>s m q. v = Float s m q)"
  by (auto simp: float_of_token_def split: option.splits float.splits)

lemma float_of_token_parts:
  assumes "float_of_token t = Some v"
  obtains sg ip fr ex where "t = sg @ ip @ fr @ ex" and "literal_parts sg ip fr ex"
    and "literal_value (sg = ''-'') ip fr ex = v" and "\<exists>s m q. v = Float s m q"
proof -
  from assms have d: "decimal_literal t = Some v" and fin: "\<exists>s m q. v = Float s m q"
    by (simp_all add: float_of_token_Some)
  from d obtain sg ip fr ex where "t = sg @ ip @ fr @ ex" "literal_parts sg ip fr ex"
    "literal_value (sg = ''-'') ip fr ex = v"
    by (rule decimal_literal_parts)
  with fin show ?thesis using that by blast
qed

text \<open>
  The extraction of a \<open>float\<close> from a buffer that begins with a decimal literal in the
  finite range, followed by white space or the end: the literal is consumed and its value
  stored.
\<close>

lemma extract_float_token:
  assumes "float_of_token t = Some v" and "stops r"
  shows "\<exists>xtrc. extract_float (t @ r) = (xtrc, r) \<and> convert_to_v xtrc = (v, False)"
proof -
  from assms(1) obtain sg ip fr ex where t: "t = sg @ ip @ fr @ ex"
    and parts: "literal_parts sg ip fr ex"
    and v: "literal_value (sg = ''-'') ip fr ex = v" and fin: "\<exists>s m q. v = Float s m q"
    by (rule float_of_token_parts)
  let ?ip = "leading_zero ip @ dropWhile is_zero ip"
  define xtrc where "xtrc = sg @ ?ip @ fr @ lower_e ex"
  have x: "extract_float (t @ r) = (xtrc, r)"
    using extract_float_parts[OF parts assms(2)] by (simp add: t xtrc_def)
  have parts': "literal_parts sg ?ip fr ex"
    by (rule literal_parts_leading_zero(1)[OF parts])
  have s: "strtof xtrc = (v, [])"
    using strtof_parts[OF parts'] literal_parts_leading_zero(2)[OF parts] v
    by (simp add: xtrc_def)
  have ne: "xtrc \<noteq> []"
    using parts' by (cases fr) (auto simp: literal_parts_def xtrc_def)
  from fin obtain s' m q where "v = Float s' m q" by blast
  with s ne have "convert_to_v xtrc = (v, False)"
    by (auto simp: convert_to_v_def)
  with x show ?thesis by blast
qed

subsection \<open>The stream on the tokens of a line\<close>

lemma stops_dropWhile: "stops (dropWhile (\<lambda>c. \<not> isspace c) s)"
  unfolding stops_def
  using hd_dropWhile[of "\<lambda>c. \<not> isspace c" s] isspace_not_others by blast

lemma get_string_token:
  assumes "good iss" and "tokens (buf iss) = t # ts"
  shows "\<exists>iss'. get_string iss old = (iss', t) \<and> \<not> failbit iss' \<and> tokens (buf iss') = ts \<and>
           (eofbit iss' \<longleftrightarrow> buf iss' = [])"
proof -
  let ?s = "dropWhile isspace (buf iss)"
  from assms(2) have tk: "?s \<noteq> []" "t = takeWhile (\<lambda>c. \<not> isspace c) ?s"
    "ts = tokens (dropWhile (\<lambda>c. \<not> isspace c) ?s)"
    by (simp_all add: tokens_Cons_iff)
  have "\<not> isspace (hd ?s)"
    using tk(1) hd_dropWhile[of isspace "buf iss"] by blast
  with tk(1) have t_ne: "takeWhile (\<lambda>c. \<not> isspace c) ?s \<noteq> []"
    by (cases ?s) auto
  from assms(1) have g: "\<not> eofbit iss" "\<not> failbit iss"
    by (simp_all add: good_def)
  show ?thesis
    using assms(1) tk t_ne g
    by (simp add: get_string_def sentry_def Let_def)
qed

lemma get_float_token:
  assumes "good iss" and "tokens (buf iss) = t # ts" and "float_of_token t = Some v"
  shows "\<exists>iss'. get_float iss old = (iss', v) \<and> \<not> failbit iss' \<and> tokens (buf iss') = ts \<and>
           (eofbit iss' \<longleftrightarrow> buf iss' = [])"
proof -
  let ?s = "dropWhile isspace (buf iss)"
  let ?r = "dropWhile (\<lambda>c. \<not> isspace c) ?s"
  from assms(2) have tk: "?s \<noteq> []" "t = takeWhile (\<lambda>c. \<not> isspace c) ?s" "ts = tokens ?r"
    by (simp_all add: tokens_Cons_iff)
  have s: "?s = t @ ?r" by (simp add: tk(2))
  from extract_float_token[OF assms(3) stops_dropWhile, of ?s] obtain xtrc where
    x: "extract_float (t @ ?r) = (xtrc, ?r)" "convert_to_v xtrc = (v, False)"
    by blast
  from assms(1) have g: "\<not> eofbit iss" "\<not> failbit iss"
    by (simp_all add: good_def)
  have sen: "sentry iss = (iss\<lparr>buf := ?s\<rparr>, True)"
    using assms(1) tk(1) by (simp add: sentry_def Let_def)
  have "get_float iss old = (iss\<lparr>buf := ?r, eofbit := (?r = []), failbit := False\<rparr>, v)"
    unfolding get_float_def sen using x g s by simp
  then show ?thesis using tk(3) by simp
qed

lemma good_tokens: "\<not> failbit iss \<Longrightarrow> (eofbit iss \<longleftrightarrow> buf iss = []) \<Longrightarrow> tokens (buf iss) \<noteq> [] \<Longrightarrow> good iss"
  by (auto simp: good_def tokens_Nil)

text \<open>A well-formed line is read as its record.\<close>

lemma parse_line_record:
  assumes "record_of line = Some rec"
  shows "parse_line line = Some rec"
proof -
  from assms obtain a t1 t2 t3 rest x y z where
    tk: "tokens line = a # t1 # t2 # t3 # rest"
    and f: "float_of_token t1 = Some x" "float_of_token t2 = Some y" "float_of_token t3 = Some z"
    and rec: "rec = (a, x, y, z)"
    by (auto simp: record_of_def split: list.splits option.splits)
  let ?u = "zero_float"
  have g0: "good (open_stream line)" "tokens (buf (open_stream line)) = a # t1 # t2 # t3 # rest"
    using tk by (simp_all add: open_stream_def good_def)
  from get_string_token[OF g0, of "[]"] obtain s1 where
    s1: "get_string (open_stream line) [] = (s1, a)" "\<not> failbit s1"
      "tokens (buf s1) = t1 # t2 # t3 # rest" "eofbit s1 \<longleftrightarrow> buf s1 = []"
    by blast
  have g1: "good s1" using s1 by (intro good_tokens) auto
  from get_float_token[OF g1 s1(3) f(1), of ?u] obtain s2 where
    s2: "get_float s1 ?u = (s2, x)" "\<not> failbit s2"
      "tokens (buf s2) = t2 # t3 # rest" "eofbit s2 \<longleftrightarrow> buf s2 = []"
    by blast
  have g2: "good s2" using s2 by (intro good_tokens) auto
  from get_float_token[OF g2 s2(3) f(2), of ?u] obtain s3 where
    s3: "get_float s2 ?u = (s3, y)" "\<not> failbit s3"
      "tokens (buf s3) = t3 # rest" "eofbit s3 \<longleftrightarrow> buf s3 = []"
    by blast
  have g3: "good s3" using s3 by (intro good_tokens) auto
  from get_float_token[OF g3 s3(3) f(3), of ?u] obtain s4 where
    s4: "get_float s3 ?u = (s4, z)" "\<not> failbit s4"
    by blast
  show ?thesis
    by (simp add: parse_line_def parse_line_from_def s1(1) s2(1) s3(1) s4 fail_def rec)
qed

subsection \<open>The uninitialised variables never reach a result\<close>

lemma sentry_failbit: "failbit iss \<Longrightarrow> sentry iss = (iss, False)"
  by (simp add: sentry_def good_def)

lemma sentry_False_failbit: "sentry iss = (iss', False) \<Longrightarrow> failbit iss'"
  by (auto simp: sentry_def Let_def split: if_splits)

lemma get_float_fst: "fst (get_float iss u) = fst (get_float iss u')"
  by (simp add: get_float_def split: prod.splits bool.splits)

lemma get_float_snd:
  "\<not> failbit (fst (get_float iss u)) \<Longrightarrow> snd (get_float iss u) = snd (get_float iss u')"
  by (auto simp: get_float_def split: prod.splits bool.splits dest: sentry_False_failbit)

lemma get_float_failbit: "failbit iss \<Longrightarrow> failbit (fst (get_float iss u))"
  by (simp add: get_float_def sentry_failbit)

lemma parse_line_from_alt:
  "parse_line_from u line =
     (let s1 = get_string (open_stream line) [];
          s2 = get_float (fst s1) (fst u);
          s3 = get_float (fst s2) (fst (snd u));
          s4 = get_float (fst s3) (snd (snd u))
      in if failbit (fst s4) then None else Some (snd s1, snd s2, snd s3, snd s4))"
  by (simp add: parse_line_from_def fail_def Let_def split_beta)

lemma parse_line_from_any: "parse_line_from u line = parse_line_from u' line"
proof -
  let ?s1 = "get_string (open_stream line) []"
  let ?s2 = "\<lambda>u. get_float (fst ?s1) (fst u)"
  let ?s3 = "\<lambda>u. get_float (fst (?s2 u)) (fst (snd u))"
  let ?s4 = "\<lambda>u. get_float (fst (?s3 u)) (snd (snd u))"
  have f2: "fst (?s2 u) = fst (?s2 u')" by (rule get_float_fst)
  have f3: "fst (?s3 u) = fst (?s3 u')" unfolding f2 by (rule get_float_fst)
  have f4: "fst (?s4 u) = fst (?s4 u')" unfolding f3 by (rule get_float_fst)
  show ?thesis
  proof (cases "failbit (fst (?s4 u))")
    case True
    then show ?thesis using f4 by (simp add: parse_line_from_alt Let_def)
  next
    case False
    then have n3: "\<not> failbit (fst (?s3 u))" using get_float_failbit by blast
    then have n2: "\<not> failbit (fst (?s2 u))" using get_float_failbit by blast
    have v2: "snd (?s2 u) = snd (?s2 u')" using n2 by (rule get_float_snd)
    have v3: "snd (?s3 u) = snd (?s3 u')" using n3 get_float_snd f2 by metis
    have v4: "snd (?s4 u) = snd (?s4 u')" using False get_float_snd f3 by metis
    show ?thesis using False f4 v2 v3 v4 by (simp add: parse_line_from_alt Let_def)
  qed
qed

lemma parse_line_from_eq: "parse_line_from u line = parse_line line"
  unfolding parse_line_def by (rule parse_line_from_any)

lemma loop_unfold:
  "loop u input n i atoms xyz =
     (if i < n then
        (if length input \<le> i then Inl (Undefined Index_out_of_bounds)
         else
           case parse_line (input ! i) of
             None \<Rightarrow> Inl (Thrown (Runtime_error ''Could not parse line''))
           | Some (atom, x, y, z) \<Rightarrow>
               loop u input n (Suc i)
                 (atoms[i := atom])
                 (xyz[i * 3 := x, i * 3 + 1 := y, i * 3 + 2 := z]))
      else Inr (atoms, xyz))"
  by (subst loop.simps) (simp add: parse_line_from_eq split: option.splits)

lemma loop_any: "loop u input n i atoms xyz = loop u' input n i atoms xyz"
proof (induction "n - i" arbitrary: i atoms xyz)
  case 0
  then show ?case by (simp add: loop_unfold)
next
  case (Suc k)
  then have "k = n - Suc i" by simp
  then show ?case
    using Suc.hyps(1) by (simp add: loop_unfold[of _ _ _ i] split: option.splits)
qed

lemma loop_length:
  "loop u input n i atoms xyz = Inr (a, c) \<Longrightarrow> length a = length atoms \<and> length c = length xyz"
proof (induction "n - i" arbitrary: i atoms xyz)
  case 0
  then show ?case by (simp add: loop_unfold)
next
  case (Suc k)
  from Suc.hyps(2) have k: "k = n - Suc i" and lt: "i < n" by simp_all
  from Suc.prems lt obtain atom x y z where
    "loop u input n (Suc i) (atoms[i := atom]) (xyz[i * 3 := x, i * 3 + 1 := y, i * 3 + 2 := z]) = Inr (a, c)"
    by (subst (asm) loop_unfold) (auto split: if_splits option.splits)
  from Suc.hyps(1)[OF k this] show ?case by simp
qed

lemma loop_take: "loop u (take n input) n i atoms xyz = loop u input n i atoms xyz"
proof (induction "n - i" arbitrary: i atoms xyz)
  case 0
  then show ?case by (simp add: loop_unfold)
next
  case (Suc k)
  from Suc.hyps(2) have k: "k = n - Suc i" and lt: "i < n" by simp_all
  show ?case
    using Suc.hyps(1)[OF k] lt
    by (auto simp add: loop_unfold[of _ _ _ i] min_def split: option.splits)
qed

subsection \<open>The top-level function in terms of the loop\<close>

lemma process_lines_with_atoms_from_any:
  "process_lines_with_atoms_from u input n = process_lines_with_atoms_from u' input n"
  by (simp add: process_lines_with_atoms_from_def Let_def loop_any[of u _ _ _ _ _ u'])

lemma process_negative:
  "sint n < 0 \<Longrightarrow> process_lines_with_atoms_from u input n = Inl (Thrown Length_error)"
  by (simp add: process_lines_with_atoms_from_def)

lemma process_overflow:
  "0 \<le> sint n \<Longrightarrow> INT_MAX < sint n * 3 \<Longrightarrow>
   process_lines_with_atoms_from u input n = Inl (Undefined Signed_integer_overflow)"
  by (simp add: process_lines_with_atoms_from_def)

lemma process_loop:
  "0 \<le> sint n \<Longrightarrow> sint n * 3 \<le> INT_MAX \<Longrightarrow>
   process_lines_with_atoms_from u input n =
     loop u input (nat (sint n)) 0
       (replicate (nat (sint n)) []) (replicate (3 * nat (sint n)) zero_float)"
  by (simp add: process_lines_with_atoms_from_def Let_def nat_mult_distrib mult.commute)

lemma process_Inr_range:
  "process_lines_with_atoms_from u input n = Inr r \<Longrightarrow> 0 \<le> sint n \<and> sint n * 3 \<le> INT_MAX"
  by (auto simp: process_lines_with_atoms_from_def Let_def split: if_splits)

lemma process_take:
  "process_lines_with_atoms_from u (take (nat (sint n)) input) n =
   process_lines_with_atoms_from u input n"
  by (simp add: process_lines_with_atoms_from_def Let_def loop_take)

subsection \<open>The result of the loop\<close>

lemma take_update3:
  "k + 3 \<le> length xs \<Longrightarrow> take (k + 3) (xs[k := x, k + 1 := y, k + 2 := z]) = take k xs @ [x, y, z]"
  by (auto simp: list_eq_iff_nth_eq nth_append nth_list_update less_Suc_eq numeral_3_eq_3)

lemma take_update1:
  "k < length xs \<Longrightarrow> take (Suc k) (xs[k := x]) = take k xs @ [x]"
  by (simp add: take_Suc_conv_app_nth)

lemma loop_result:
  assumes "i \<le> n" and "i \<le> length input" and "length atoms = n" and "length xyz = 3 * n"
  shows "loop u input n i atoms xyz =
    (if \<exists>j. i \<le> j \<and> j < min n (length input) \<and> parse_line (input ! j) = None
     then Inl parse_error
     else if length input < n then Inl (Undefined Index_out_of_bounds)
     else Inr (take i atoms @ map (\<lambda>j. label_of (the (parse_line (input ! j)))) [i..<n],
               take (3 * i) xyz @ concat (map (\<lambda>j. coords_of (the (parse_line (input ! j)))) [i..<n])))"
  using assms
proof (induction "n - i" arbitrary: i atoms xyz)
  case 0
  then show ?case by (simp add: loop_unfold)
next
  case (Suc k)
  from Suc.hyps(2) have k: "k = n - Suc i" and lt: "i < n" by simp_all
  show ?case
  proof (cases "length input \<le> i")
    case True
    with lt have "loop u input n i atoms xyz = Inl (Undefined Index_out_of_bounds)"
      by (simp add: loop_unfold[of _ _ _ i])
    with True Suc.prems lt show ?thesis
      by auto
  next
    case False
    then have li: "i < length input" by simp
    show ?thesis
    proof (cases "parse_line (input ! i)")
      case None
      with lt li have "\<exists>j. i \<le> j \<and> j < min n (length input) \<and> parse_line (input ! j) = None"
        by (intro exI[of _ i]) simp
      with None lt li show ?thesis
        by (simp add: loop_unfold[of _ _ _ i] parse_error_def)
    next
      case (Some r)
      obtain a x y z where r: "r = (a, x, y, z)" by (cases r) auto
      let ?atoms = "atoms[i := a]"
      let ?xyz = "xyz[i * 3 := x, i * 3 + 1 := y, i * 3 + 2 := z]"
      have step: "loop u input n i atoms xyz = loop u input n (Suc i) ?atoms ?xyz"
        using lt li Some r by (simp add: loop_unfold[of _ _ _ i])
      have ex: "(\<exists>j. i \<le> j \<and> j < min n (length input) \<and> parse_line (input ! j) = None) =
                (\<exists>j. Suc i \<le> j \<and> j < min n (length input) \<and> parse_line (input ! j) = None)"
        using Some by (metis Suc_leI le_neq_implies_less option.distinct(1) Suc_leD)
      have ta: "take (Suc i) ?atoms = take i atoms @ [label_of (the (parse_line (input ! i)))]"
        using lt Suc.prems(3) Some r by (simp add: take_update1 label_of_def)
      have "i * 3 + 3 \<le> length xyz" using lt Suc.prems(4) by simp
      from take_update3[OF this, of x y z]
      have tx: "take (3 * Suc i) ?xyz = take (3 * i) xyz @ coords_of (the (parse_line (input ! i)))"
        using Some r by (simp add: coords_of_def mult.commute add.commute)
      have up: "[i..<n] = i # [Suc i..<n]"
        using lt by (simp add: upt_conv_Cons)
      let ?R = "\<lambda>i atoms xyz.
        (if \<exists>j. i \<le> j \<and> j < min n (length input) \<and> parse_line (input ! j) = None
         then Inl parse_error
         else if length input < n then Inl (Undefined Index_out_of_bounds)
         else Inr (take i atoms @ map (\<lambda>j. label_of (the (parse_line (input ! j)))) [i..<n],
                   take (3 * i) xyz @ concat (map (\<lambda>j. coords_of (the (parse_line (input ! j)))) [i..<n])))"
      have IH: "loop u input n (Suc i) ?atoms ?xyz = ?R (Suc i) ?atoms ?xyz"
        using lt li Suc.prems by (intro Suc.hyps(1)[OF k]) simp_all
      have inr: "(take (Suc i) ?atoms @ map (\<lambda>j. label_of (the (parse_line (input ! j)))) [Suc i..<n],
                  take (3 * Suc i) ?xyz @ concat (map (\<lambda>j. coords_of (the (parse_line (input ! j)))) [Suc i..<n])) =
                 (take i atoms @ map (\<lambda>j. label_of (the (parse_line (input ! j)))) [i..<n],
                  take (3 * i) xyz @ concat (map (\<lambda>j. coords_of (the (parse_line (input ! j)))) [i..<n]))"
        unfolding ta tx up by simp
      have "?R (Suc i) ?atoms ?xyz = ?R i atoms xyz"
        by (simp only: ex inr)
      with step IH show ?thesis by simp
    qed
  qed
qed

subsection \<open>The result of the call\<close>

lemma process_result:
  assumes "0 \<le> sint n" and "sint n * 3 \<le> INT_MAX"
  shows "process_lines_with_atoms_from u lines n =
    (if \<exists>j. j < min (nat (sint n)) (length lines) \<and> parse_line (lines ! j) = None
     then Inl parse_error
     else if length lines < nat (sint n) then Inl (Undefined Index_out_of_bounds)
     else Inr (map (\<lambda>j. label_of (the (parse_line (lines ! j)))) [0..<nat (sint n)],
               concat (map (\<lambda>j. coords_of (the (parse_line (lines ! j)))) [0..<nat (sint n)])))"
proof -
  let ?N = "nat (sint n)"
  let ?P = "\<lambda>j. parse_line (lines ! j) = None"
  have A: "(\<exists>j. 0 \<le> j \<and> j < min ?N (length lines) \<and> ?P j) = (\<exists>j. j < min ?N (length lines) \<and> ?P j)"
    by simp
  have "loop u lines ?N 0 (replicate ?N []) (replicate (3 * ?N) zero_float) =
    (if \<exists>j. 0 \<le> j \<and> j < min ?N (length lines) \<and> ?P j
     then Inl parse_error
     else if length lines < ?N then Inl (Undefined Index_out_of_bounds)
     else Inr (take 0 (replicate ?N []) @ map (\<lambda>j. label_of (the (parse_line (lines ! j)))) [0..<?N],
               take (3 * 0) (replicate (3 * ?N) zero_float) @
               concat (map (\<lambda>j. coords_of (the (parse_line (lines ! j)))) [0..<?N])))"
    by (rule loop_result) simp_all
  then show ?thesis
    unfolding process_loop[OF assms]
    by (simp only: A mult_0_right take_0 append_Nil)
qed

lemma length_coords_of: "length (coords_of r) = 3"
  by (cases r) (simp add: coords_of_def)

lemma length_concat_triples:
  "(\<And>j. length (f j) = 3) \<Longrightarrow> length (concat (map f [0..<N])) = 3 * N"
  by (induction N) simp_all

lemma concat_triples_nth:
  assumes "\<And>j. length (f j) = 3" and "j < N" and "k < 3"
  shows "concat (map f [0..<N]) ! (3 * j + k) = f j ! k"
  using assms(2)
proof (induction N)
  case 0
  then show ?case by simp
next
  case (Suc N)
  have len: "length (concat (map f [0..<N])) = 3 * N"
    using assms(1) by (rule length_concat_triples)
  show ?case
  proof (cases "j < N")
    case True
    with assms(3) have "3 * j + k < 3 * N" by simp
    with True Suc.IH len show ?thesis by (simp add: nth_append)
  next
    case False
    with Suc.prems have "j = N" by simp
    with len show ?thesis by (simp add: nth_append)
  qed
qed

lemma record_of_SomeD:
  assumes "record_of line = Some r"
  shows "label_of r = tokens line ! 0"
    and "float_of_token (tokens line ! 1) = Some (coords_of r ! 0)"
    and "float_of_token (tokens line ! 2) = Some (coords_of r ! 1)"
    and "float_of_token (tokens line ! 3) = Some (coords_of r ! 2)"
  using assms
  by (auto simp: record_of_def label_of_def coords_of_def split: list.splits option.splits)

lemma well_formed_parse_line:
  "well_formed line \<Longrightarrow> parse_line line = record_of line \<and> record_of line \<noteq> None"
  by (auto simp: well_formed_def parse_line_record)

text \<open>The result on lines that are all read.\<close>

lemma parsed_lines_result:
  assumes "0 \<le> sint n" and "sint n * 3 \<le> INT_MAX" and "nat (sint n) \<le> length lines"
    and "\<forall>i < nat (sint n). parse_line (lines ! i) \<noteq> None"
  shows "process_lines_with_atoms_from u lines n =
     Inr (map (\<lambda>j. label_of (the (parse_line (lines ! j)))) [0..<nat (sint n)],
          concat (map (\<lambda>j. coords_of (the (parse_line (lines ! j)))) [0..<nat (sint n)]))"
  using assms(3,4) by (simp add: process_result[OF assms(1,2)])

lemma well_formed_lines_result:
  assumes "0 \<le> sint n" and "sint n * 3 \<le> INT_MAX" and "nat (sint n) \<le> length lines"
    and "\<forall>i < nat (sint n). well_formed (lines ! i)"
  shows "process_lines_with_atoms lines n =
     Inr (map (\<lambda>j. label_of (the (record_of (lines ! j)))) [0..<nat (sint n)],
          concat (map (\<lambda>j. coords_of (the (record_of (lines ! j)))) [0..<nat (sint n)]))"
proof -
  have p: "\<forall>i < nat (sint n). parse_line (lines ! i) = record_of (lines ! i) \<and> record_of (lines ! i) \<noteq> None"
    using assms(4) well_formed_parse_line by blast
  then have "\<forall>i < nat (sint n). parse_line (lines ! i) \<noteq> None" by simp
  note res = parsed_lines_result[OF assms(1-3) this]
  have m1: "map (\<lambda>j. label_of (the (parse_line (lines ! j)))) [0..<nat (sint n)] =
        map (\<lambda>j. label_of (the (record_of (lines ! j)))) [0..<nat (sint n)]"
    using p by (intro map_cong) auto
  have m2: "map (\<lambda>j. coords_of (the (parse_line (lines ! j)))) [0..<nat (sint n)] =
        map (\<lambda>j. coords_of (the (record_of (lines ! j)))) [0..<nat (sint n)]"
    using p by (intro map_cong) auto
  show ?thesis
    by (simp only: process_lines_with_atoms_def res m1 m2)
qed

subsection \<open>Failure\<close>

lemma sentry_no_token:
  "tokens (buf iss) = [] \<Longrightarrow> snd (sentry iss) = False"
  by (simp add: sentry_def Let_def tokens_Nil_iff)

lemma get_float_no_token: "tokens (buf iss) = [] \<Longrightarrow> failbit (fst (get_float iss u))"
  using sentry_no_token[of iss] sentry_False_failbit[of iss]
  by (cases "sentry iss") (auto simp: get_float_def)

lemma get_string_no_token: "tokens (buf iss) = [] \<Longrightarrow> failbit (fst (get_string iss old))"
  using sentry_no_token[of iss] sentry_False_failbit[of iss]
  by (cases "sentry iss") (auto simp: get_string_def)

lemma parse_line_NoneI:
  assumes "failbit (fst (get_string (open_stream line) [])) \<or>
           failbit (fst (get_float (fst (get_string (open_stream line) [])) zero_float)) \<or>
           failbit (fst (get_float (fst (get_float (fst (get_string (open_stream line) [])) zero_float)) zero_float)) \<or>
           failbit (fst (get_float (fst (get_float (fst (get_float (fst (get_string (open_stream line) [])) zero_float)) zero_float)) zero_float))"
  shows "parse_line line = None"
  using assms get_float_failbit
  by (auto simp: parse_line_def parse_line_from_alt Let_def)

text \<open>
  A line with fewer than four tokens, of which those after the first are \<open>float\<close>s, is
  rejected: every extraction consumes one token, and one of them finds none.
\<close>

lemma parse_line_too_few:
  assumes "length (tokens line) < 4" and "list_all (\<lambda>t. float_of_token t \<noteq> None) (tl (tokens line))"
  shows "parse_line line = None"
proof (cases "tokens line")
  case Nil
  then have "failbit (fst (get_string (open_stream line) []))"
    by (intro get_string_no_token) (simp add: open_stream_def)
  then show ?thesis by (intro parse_line_NoneI) simp
next
  case (Cons a ts)
  have g0: "good (open_stream line)" "tokens (buf (open_stream line)) = a # ts"
    using Cons by (simp_all add: open_stream_def good_def)
  from get_string_token[OF g0, of "[]"] obtain s1 where
    s1: "get_string (open_stream line) [] = (s1, a)" "\<not> failbit s1"
      "tokens (buf s1) = ts" "eofbit s1 \<longleftrightarrow> buf s1 = []"
    by blast
  show ?thesis
  proof (cases ts)
    case Nil
    with s1 have "failbit (fst (get_float s1 zero_float))"
      by (intro get_float_no_token) simp
    with s1(1) show ?thesis by (intro parse_line_NoneI) simp
  next
    case ts: (Cons t1 ts1)
    with assms(2) Cons obtain x where x: "float_of_token t1 = Some x" by auto
    have g1: "good s1" using s1 ts by (intro good_tokens) auto
    from get_float_token[OF g1 s1(3)[unfolded ts] x, of zero_float] obtain s2 where
      s2: "get_float s1 zero_float = (s2, x)" "\<not> failbit s2"
        "tokens (buf s2) = ts1" "eofbit s2 \<longleftrightarrow> buf s2 = []"
      by blast
    show ?thesis
    proof (cases ts1)
      case Nil
      with s2 have "failbit (fst (get_float s2 zero_float))"
        by (intro get_float_no_token) simp
      with s1(1) s2(1) show ?thesis by (intro parse_line_NoneI) simp
    next
      case ts1: (Cons t2 ts2)
      with assms(2) Cons ts obtain y where y: "float_of_token t2 = Some y" by auto
      have g2: "good s2" using s2 ts1 by (intro good_tokens) auto
      from get_float_token[OF g2 s2(3)[unfolded ts1] y, of zero_float] obtain s3 where
        s3: "get_float s2 zero_float = (s3, y)" "\<not> failbit s3"
          "tokens (buf s3) = ts2" "eofbit s3 \<longleftrightarrow> buf s3 = []"
        by blast
      from assms(1) Cons ts ts1 have "ts2 = []" by simp
      with s3 have "failbit (fst (get_float s3 zero_float))"
        by (intro get_float_no_token) simp
      with s1(1) s2(1) s3(1) show ?thesis by (intro parse_line_NoneI) simp
    qed
  qed
qed

text \<open>The call fails exactly when some line among the first \<open>n\<close> is not read.\<close>

lemma process_fails_iff:
  assumes "0 \<le> sint n" and "sint n * 3 \<le> INT_MAX" and "nat (sint n) \<le> length lines"
  shows "(\<exists>e. process_lines_with_atoms lines n = Inl e) \<longleftrightarrow>
         (\<exists>i < nat (sint n). parse_line (lines ! i) = None)"
    and "process_lines_with_atoms lines n = Inl e \<Longrightarrow> e = parse_error"
  using assms(3)
  by (auto simp: process_lines_with_atoms_def process_result[OF assms(1,2)] min_def split: if_splits)

lemma process_fails_at:
  assumes "0 \<le> sint n" and "sint n * 3 \<le> INT_MAX"
    and "i < nat (sint n)" and "i < length lines" and "parse_line (lines ! i) = None"
  shows "process_lines_with_atoms (take (Suc i) lines) n = Inl parse_error"
proof -
  have "i < min (nat (sint n)) (length (take (Suc i) lines)) \<and> parse_line (take (Suc i) lines ! i) = None"
    using assms(3-5) by simp
  then have "\<exists>j. j < min (nat (sint n)) (length (take (Suc i) lines)) \<and>
                 parse_line (take (Suc i) lines ! j) = None"
    by blast
  then show ?thesis
    unfolding process_lines_with_atoms_def process_result[OF assms(1,2)] by simp
qed

lemma loop_cong:
  assumes "length xs = length ys" and "\<forall>j < length xs. parse_line (xs ! j) = parse_line (ys ! j)"
  shows "loop u xs n i atoms xyz = loop u ys n i atoms xyz"
proof (induction "n - i" arbitrary: i atoms xyz)
  case 0
  then show ?case by (simp add: loop_unfold)
next
  case (Suc k)
  from Suc.hyps(2) have k: "k = n - Suc i" and lt: "i < n" by simp_all
  show ?case
    using Suc.hyps(1)[OF k] lt assms
    by (auto simp add: loop_unfold[of _ _ _ i] split: option.splits)
qed

lemma process_cong:
  assumes "length xs = length ys" and "\<forall>j < length xs. parse_line (xs ! j) = parse_line (ys ! j)"
  shows "process_lines_with_atoms xs n = process_lines_with_atoms ys n"
  by (simp add: process_lines_with_atoms_def process_lines_with_atoms_from_def Let_def
      loop_cong[OF assms])

subsection \<open>Tokens that begin no number\<close>

lemma convert_to_v_no_number:
  "sign_chars sg \<Longrightarrow> convert_to_v sg = (zero_float, True) \<and> convert_to_v (sg @ ''.'') = (zero_float, True)"
  by (auto simp: sign_chars_def convert_to_v_def strtof_def take_sign_def isdigit_def)

text \<open>Where no number begins, nothing but a sign and a point is accumulated.\<close>

lemma extract_float_no_number:
  assumes "\<not> begins_with_number s"
  shows "\<exists>sg. sign_chars sg \<and> (fst (extract_float s) = sg \<or> fst (extract_float s) = sg @ ''.'')"
proof -
  obtain neg b where ts: "take_sign s = (neg, b)" by (cases "take_sign s") auto
  then obtain sg where sg: "s = sg @ b" "sign_chars sg" by (rule take_sign_decomp)
  have sign_step:
    "(case s of [] \<Rightarrow> ([], []) | c # cs \<Rightarrow> if is_sign c then ([c], cs) else ([], s)) =
     (if s \<noteq> [] \<and> is_sign (hd s) then ([hd s], tl s) else ([], s))"
    by (cases s) auto
  have b: "b = (if s \<noteq> [] \<and> is_sign (hd s) then tl s else s)"
    using ts by (cases s) (auto simp: take_sign_def is_sign_def split: if_splits)
  have nb: "b = [] \<or> (\<not> isdigit (hd b) \<and> (hd b = CHR ''.'' \<longrightarrow> tl b = [] \<or> \<not> isdigit (hd (tl b))))"
    using assms ts by (auto simp: begins_with_number_def split: list.splits)
  have z: "takeWhile is_zero b = []" "dropWhile is_zero b = b"
    using nb by (cases b; auto dest: is_zero_isdigit)+
  have loop: "extract_float_loop False False False b = ([], b) \<or>
              fst (extract_float_loop False False False b) = ''.''"
  proof (cases b)
    case Nil
    then show ?thesis by simp
  next
    case (Cons c cs)
    with nb have c: "\<not> isdigit c" by simp
    show ?thesis
    proof (cases "c = CHR ''.''")
      case False
      with Cons c show ?thesis by simp
    next
      case True
      with nb Cons have "cs = [] \<or> \<not> isdigit (hd cs)" by simp
      then have "extract_float_loop False True False cs = ([], cs)"
        by (cases cs) auto
      with Cons c True show ?thesis by simp
    qed
  qed
  show ?thesis
  proof (cases "s \<noteq> [] \<and> is_sign (hd s)")
    case True
    with b have bt: "b = tl s" by simp
    have "fst (extract_float s) = [hd s] @ fst (extract_float_loop False False False b)"
      unfolding extract_float_def sign_step using True z[unfolded bt]
      by (simp add: split_beta bt Let_def)
    moreover have "sign_chars [hd s]"
      using True by (auto simp: sign_chars_def is_sign_def)
    ultimately show ?thesis
      using loop by (metis append_Nil2 fst_conv)
  next
    case False
    with b have bs: "b = s" by simp
    have "fst (extract_float s) = [] @ fst (extract_float_loop False False False b)"
      unfolding extract_float_def sign_step using False z[unfolded bs]
      by (auto simp add: split_beta bs Let_def)
    moreover have "sign_chars []"
      by (simp add: sign_chars_def)
    ultimately show ?thesis
      using loop by (metis append_Nil2 fst_conv)
  qed
qed

lemma get_float_no_number:
  assumes "\<not> begins_with_number (dropWhile isspace (buf iss))"
  shows "failbit (fst (get_float iss u))"
proof (cases "sentry iss")
  case (Pair iss' ok)
  show ?thesis
  proof (cases ok)
    case False
    with Pair show ?thesis
      using sentry_False_failbit[of iss iss'] by (simp add: get_float_def)
  next
    case True
    with Pair have b: "buf iss' = dropWhile isspace (buf iss)"
      by (auto simp: sentry_def Let_def split: if_splits)
    from extract_float_no_number[OF assms] obtain sg where
      "sign_chars sg" "fst (extract_float (buf iss')) = sg \<or> fst (extract_float (buf iss')) = sg @ ''.''"
      unfolding b by blast
    then have "snd (convert_to_v (fst (extract_float (buf iss'))))"
      using convert_to_v_no_number[of sg] by auto
    with Pair True show ?thesis
      by (simp add: get_float_def split_beta)
  qed
qed

lemma begins_with_number_token:
  assumes "begins_with_number (t @ r)" and "t \<noteq> []" and "r = [] \<or> isspace (hd r)"
  shows "begins_with_number t"
proof -
  have r: "r = [] \<or> (\<not> isdigit (hd r) \<and> hd r \<noteq> CHR ''.'' \<and> \<not> is_sign (hd r))"
    using assms(3) isspace_not_others by blast
  show ?thesis
    using assms(1,2) r
    by (cases t; cases "tl t"; cases "tl (tl t)"; cases r)
       (auto simp: begins_with_number_def take_sign_def split: if_splits)
qed

lemma get_float_nonnumeric_token:
  assumes "tokens (buf iss) = t # ts" and "\<not> begins_with_number t"
  shows "failbit (fst (get_float iss u))"
proof -
  let ?s = "dropWhile isspace (buf iss)"
  let ?r = "dropWhile (\<lambda>c. \<not> isspace c) ?s"
  from assms(1) have tk: "?s \<noteq> []" "t = takeWhile (\<lambda>c. \<not> isspace c) ?s"
    by (simp_all add: tokens_Cons_iff)
  have "\<not> isspace (hd ?s)"
    using tk(1) hd_dropWhile[of isspace "buf iss"] by blast
  with tk have t: "t \<noteq> []" by (cases ?s) auto
  have s: "?s = t @ ?r" by (simp add: tk(2))
  have "?r = [] \<or> isspace (hd ?r)"
    using hd_dropWhile[of "\<lambda>c. \<not> isspace c" ?s] by blast
  with assms(2) t have "\<not> begins_with_number (t @ ?r)"
    using begins_with_number_token by blast
  then show ?thesis
    using s get_float_no_number[of iss u] by simp
qed

text \<open>
  A line on which the first of the second, third and fourth tokens that is no \<open>float\<close>
  does not begin with a number is rejected: the extractions before it consume one token
  each, and the one that meets it converts nothing.
\<close>

lemma parse_line_nonnumeric:
  assumes "nonnumeric_field line"
  shows "parse_line line = None"
proof -
  let ?f = "\<lambda>t. float_of_token t \<noteq> None"
  let ?ts = "tl (tokens line)"
  from assms obtain t rest where
    d: "dropWhile ?f (take 3 ?ts) = t # rest" and nt: "\<not> begins_with_number t"
    by (auto simp: nonnumeric_field_def split: list.splits)
  define fs where "fs = takeWhile ?f (take 3 ?ts)"
  have tk3: "take 3 ?ts = fs @ t # rest"
    unfolding fs_def d[symmetric] by (rule takeWhile_dropWhile_id[symmetric])
  have fl: "\<forall>x \<in> set fs. \<exists>v. float_of_token x = Some v"
    unfolding fs_def by (auto dest: set_takeWhileD)
  have "length (take 3 ?ts) \<le> 3" by simp
  then have len: "length fs < 3" unfolding tk3 by simp
  have ts: "?ts = fs @ t # rest @ drop 3 ?ts"
    using append_take_drop_id[of 3 ?ts] tk3 by (metis append.assoc append_Cons)
  then have "tokens line \<noteq> []" by (cases "tokens line") auto
  then obtain a where tl: "tokens line = a # fs @ t # rest @ drop 3 ?ts"
    using ts by (cases "tokens line") auto
  define more where "more = rest @ drop 3 ?ts"
  have g0: "good (open_stream line)" "tokens (buf (open_stream line)) = a # fs @ t # more"
    using tl by (simp_all add: open_stream_def good_def more_def)
  from get_string_token[OF g0, of "[]"] obtain s1 where
    s1: "get_string (open_stream line) [] = (s1, a)" "\<not> failbit s1"
      "tokens (buf s1) = fs @ t # more" "eofbit s1 \<longleftrightarrow> buf s1 = []"
    by blast
  have g1: "good s1" using s1 by (intro good_tokens) auto
  show ?thesis
  proof (cases fs)
    case Nil
    with s1(3) have "failbit (fst (get_float s1 zero_float))"
      using get_float_nonnumeric_token[OF _ nt] by simp
    with s1(1) show ?thesis by (intro parse_line_NoneI) simp
  next
    case fs1: (Cons t1 fs')
    with fl obtain x where x: "float_of_token t1 = Some x" by auto
    from get_float_token[OF g1 s1(3)[unfolded fs1, simplified] x, of zero_float] obtain s2 where
      s2: "get_float s1 zero_float = (s2, x)" "\<not> failbit s2"
        "tokens (buf s2) = fs' @ t # more" "eofbit s2 \<longleftrightarrow> buf s2 = []"
      by blast
    have g2: "good s2" using s2 by (intro good_tokens) auto
    show ?thesis
    proof (cases fs')
      case Nil
      with s2(3) have "failbit (fst (get_float s2 zero_float))"
        using get_float_nonnumeric_token[OF _ nt] by simp
      with s1(1) s2(1) show ?thesis by (intro parse_line_NoneI) simp
    next
      case fs2: (Cons t2 fs'')
      with fl fs1 obtain y where y: "float_of_token t2 = Some y" by auto
      from len fs1 fs2 have e: "fs'' = []" by simp
      from get_float_token[OF g2 s2(3)[unfolded fs2 e, simplified] y, of zero_float] obtain s3 where
        s3: "get_float s2 zero_float = (s3, y)" "\<not> failbit s3"
          "tokens (buf s3) = t # more" "eofbit s3 \<longleftrightarrow> buf s3 = []"
        by blast
      from s3(3) have "failbit (fst (get_float s3 zero_float))"
        using get_float_nonnumeric_token[OF _ nt] by simp
      with s1(1) s2(1) s3(1) show ?thesis by (intro parse_line_NoneI) simp
    qed
  qed
qed

subsection \<open>A number followed by other characters\<close>

lemma sign_chars_numeric: "sign_chars sg \<Longrightarrow> list_all numeric_char sg"
  by (auto simp: sign_chars_def numeric_char_def is_sign_def)

lemma digits_numeric: "list_all isdigit ds \<Longrightarrow> list_all numeric_char ds"
  by (induction ds) (auto simp: numeric_char_def)

lemma literal_parts_numeric:
  assumes "literal_parts sg ip fr ex"
  shows "list_all numeric_char (sg @ ip @ fr @ ex)"
proof -
  from assms have sg: "sign_chars sg" and ip: "list_all isdigit ip"
    and fr: "fr = [] \<or> hd fr = CHR ''.''" "list_all isdigit (tl fr)"
    and ex: "exponent_part ex"
    by (simp_all add: literal_parts_def)
  have f: "list_all numeric_char fr"
    using fr digits_numeric[OF fr(2)] by (cases fr) (auto simp: numeric_char_def)
  have e: "list_all numeric_char ex"
  proof (cases "ex = []")
    case True
    then show ?thesis by simp
  next
    case False
    with ex obtain c esg ed where "ex = c # esg @ ed" "is_e c" "sign_chars esg" "list_all isdigit ed"
      by (auto simp: exponent_part_def)
    then show ?thesis
      using sign_chars_numeric[of esg] digits_numeric[of ed] by (simp add: numeric_char_def)
  qed
  show ?thesis
    using sign_chars_numeric[OF sg] digits_numeric[OF ip] f e by simp
qed

text \<open>A decimal literal consists of digits, points, exponent markers and signs.\<close>

lemma float_of_token_numeric:
  assumes "float_of_token t = Some v"
  shows "list_all numeric_char t" and "t \<noteq> []"
proof -
  from assms obtain sg ip fr ex where t: "t = sg @ ip @ fr @ ex" and p: "literal_parts sg ip fr ex"
    by (rule float_of_token_parts)
  show "list_all numeric_char t"
    unfolding t by (rule literal_parts_numeric[OF p])
  show "t \<noteq> []"
    using p unfolding t by (cases fr) (auto simp: literal_parts_def)
qed

lemma not_float_with_other_char:
  assumes "junk \<noteq> []" and "\<not> numeric_char (hd junk)"
  shows "float_of_token (t @ junk) = None"
proof (cases "float_of_token (t @ junk)")
  case None
  then show ?thesis .
next
  case (Some v)
  from float_of_token_numeric(1)[OF this] have "list_all numeric_char junk" by simp
  with assms show ?thesis by (cases junk) auto
qed

text \<open>
  The extraction of a \<open>float\<close> where, after white space, a decimal literal in the finite
  range is followed by a character that cannot continue a number.
\<close>

lemma get_float_prefix:
  assumes "good iss" and "dropWhile isspace (buf iss) = t @ r" and "float_of_token t = Some v"
    and "stops r"
  shows "get_float iss old = (iss\<lparr>buf := r, eofbit := (r = []), failbit := False\<rparr>, v)"
proof -
  from extract_float_token[OF assms(3,4)] obtain xtrc where
    x: "extract_float (t @ r) = (xtrc, r)" "convert_to_v xtrc = (v, False)"
    by blast
  from assms(1) have g: "\<not> eofbit iss" "\<not> failbit iss"
    by (simp_all add: good_def)
  have "t @ r \<noteq> []"
    using float_of_token_numeric(2)[OF assms(3)] by simp
  then have sen: "sentry iss = (iss\<lparr>buf := t @ r\<rparr>, True)"
    using assms(1,2) by (simp add: sentry_def Let_def)
  show ?thesis
    unfolding get_float_def sen using x g by simp
qed

lemma parse_line_numeric_prefix:
  assumes "tokens line = a # t1 # t2 # (t3 @ junk) # rest"
    and "float_of_token t1 = Some x" and "float_of_token t2 = Some y" and "float_of_token t3 = Some z"
    and "junk \<noteq> []" and "\<not> numeric_char (hd junk)"
  shows "parse_line line = Some (a, x, y, z)"
proof -
  let ?u = "zero_float"
  have g0: "good (open_stream line)"
    "tokens (buf (open_stream line)) = a # t1 # t2 # (t3 @ junk) # rest"
    using assms(1) by (simp_all add: open_stream_def good_def)
  from get_string_token[OF g0, of "[]"] obtain s1 where
    s1: "get_string (open_stream line) [] = (s1, a)" "\<not> failbit s1"
      "tokens (buf s1) = t1 # t2 # (t3 @ junk) # rest" "eofbit s1 \<longleftrightarrow> buf s1 = []"
    by blast
  have g1: "good s1" using s1 by (intro good_tokens) auto
  from get_float_token[OF g1 s1(3) assms(2), of ?u] obtain s2 where
    s2: "get_float s1 ?u = (s2, x)" "\<not> failbit s2"
      "tokens (buf s2) = t2 # (t3 @ junk) # rest" "eofbit s2 \<longleftrightarrow> buf s2 = []"
    by blast
  have g2: "good s2" using s2 by (intro good_tokens) auto
  from get_float_token[OF g2 s2(3) assms(3), of ?u] obtain s3 where
    s3: "get_float s2 ?u = (s3, y)" "\<not> failbit s3"
      "tokens (buf s3) = (t3 @ junk) # rest" "eofbit s3 \<longleftrightarrow> buf s3 = []"
    by blast
  have g3: "good s3" using s3 by (intro good_tokens) auto
  let ?s = "dropWhile isspace (buf s3)"
  let ?r = "dropWhile (\<lambda>c. \<not> isspace c) ?s"
  from s3(3) have tw: "takeWhile (\<lambda>c. \<not> isspace c) ?s = t3 @ junk"
    by (simp add: tokens_Cons_iff)
  have "?s = takeWhile (\<lambda>c. \<not> isspace c) ?s @ ?r"
    by (rule takeWhile_dropWhile_id[symmetric])
  then have s: "?s = t3 @ (junk @ ?r)"
    unfolding tw by simp
  have st: "stops (junk @ ?r)"
    using assms(5,6) by (cases junk) (auto simp: stops_def numeric_char_def)
  from get_float_prefix[OF g3 s assms(4) st, of ?u]
  have s4: "get_float s3 ?u = (s3\<lparr>buf := junk @ ?r, eofbit := (junk @ ?r = []), failbit := False\<rparr>, z)" .
  show ?thesis
    by (simp add: parse_line_def parse_line_from_def s1(1) s2(1) s3(1) s4 fail_def)
qed

lemma process_single:
  assumes "parse_line line = Some (a, x, y, z)"
  shows "process_lines_with_atoms [line] 1 = Inr ([a], [x, y, z])"
proof -
  have h: "0 \<le> sint (1 :: 32 word)" "sint (1 :: 32 word) * 3 \<le> INT_MAX"
    by (simp_all add: INT_MAX_def)
  show ?thesis
    unfolding process_lines_with_atoms_def process_result[OF h]
    using assms by (simp add: label_of_def coords_of_def)
qed

subsection \<open>Where the behaviour is defined\<close>

lemma undefined_behaviour_iff:
  "(\<exists>b. process_lines_with_atoms_from u input n = Inl (Undefined b)) \<longleftrightarrow> \<not> behaviour_defined input n"
proof (cases "sint n < 0")
  case True
  then show ?thesis
    by (simp add: process_negative behaviour_defined_def)
next
  case False
  then have n: "0 \<le> sint n" by simp
  show ?thesis
  proof (cases "sint n * 3 \<le> INT_MAX")
    case False
    with n show ?thesis
      by (simp add: process_overflow behaviour_defined_def)
  next
    case True
    let ?N = "nat (sint n)"
    have ex: "list_ex (\<lambda>line. parse_line line = None) input \<longleftrightarrow>
              (\<exists>j < length input. parse_line (input ! j) = None)"
      unfolding list_ex_iff by (metis in_set_conv_nth)
    note pr = process_result[OF n True, of u input]
    show ?thesis
    proof (cases "\<exists>j. j < min ?N (length input) \<and> parse_line (input ! j) = None")
      case bad: True
      have "process_lines_with_atoms_from u input n = Inl parse_error"
        by (subst pr) (simp only: bad if_True)
      moreover from bad have "\<exists>j < length input. parse_line (input ! j) = None"
        by auto
      ultimately show ?thesis
        using \<open>\<not> sint n < 0\<close> True by (simp add: behaviour_defined_def ex parse_error_def)
    next
      case ok: False
      show ?thesis
      proof (cases "length input < ?N")
        case short: True
        have "process_lines_with_atoms_from u input n = Inl (Undefined Index_out_of_bounds)"
          by (subst pr) (simp only: ok short if_True if_False)
        moreover from ok short have "\<not> (\<exists>j < length input. parse_line (input ! j) = None)"
          by (simp add: min_def)
        ultimately show ?thesis
          using \<open>\<not> sint n < 0\<close> short by (simp add: behaviour_defined_def ex)
      next
        case long: False
        have "\<exists>r. process_lines_with_atoms_from u input n = Inr r"
          by (subst pr) (simp only: ok long if_False, blast)
        with long True show ?thesis
          by (auto simp: behaviour_defined_def)
      qed
    qed
  qed
qed

lemma behaviour_defined_enough_lines:
  "0 \<le> sint n \<Longrightarrow> sint n * 3 \<le> INT_MAX \<Longrightarrow> nat (sint n) \<le> length input \<Longrightarrow>
   behaviour_defined input n"
  by (simp add: behaviour_defined_def)

section \<open>The claims\<close>

text \<open>
  C1 (amended).  Let \<open>0 \<le> n\<close> with \<open>3 * n\<close> in the range of \<open>int\<close>, and let the input have
  at least \<open>n\<close> lines, the first \<open>n\<close> of them well-formed: at least four tokens, the
  second to fourth being decimal literals with a finite binary32 value.  Then the call
  returns \<open>n\<close> labels and \<open>3 * n\<close> coordinates; \<open>labels[i]\<close> is the first token of
  \<open>lines[i]\<close> and \<open>coords[3*i]\<close>, \<open>coords[3*i+1]\<close>, \<open>coords[3*i+2]\<close> are the values of
  its second, third and fourth token; and on the lines rearranged by any \<open>p\<close> the call
  returns the records rearranged by \<open>p\<close>.
\<close>

theorem well_formed_lines_are_parsed:
  assumes "0 \<le> sint n" and "sint n * 3 \<le> INT_MAX" and "nat (sint n) \<le> length lines"
    and "\<forall>i < nat (sint n). well_formed (lines ! i)"
  shows "\<exists>labels coords.
    process_lines_with_atoms lines n = Inr (labels, coords) \<and>
    length labels = nat (sint n) \<and> length coords = 3 * nat (sint n) \<and>
    (\<forall>i < nat (sint n).
       labels ! i = tokens (lines ! i) ! 0 \<and>
       float_of_token (tokens (lines ! i) ! 1) = Some (coords ! (3 * i)) \<and>
       float_of_token (tokens (lines ! i) ! 2) = Some (coords ! (3 * i + 1)) \<and>
       float_of_token (tokens (lines ! i) ! 3) = Some (coords ! (3 * i + 2))) \<and>
    (\<forall>p. (\<forall>i < nat (sint n). p i < nat (sint n)) \<longrightarrow>
       process_lines_with_atoms (map (\<lambda>i. lines ! p i) [0..<nat (sint n)]) n =
       Inr (map (\<lambda>i. labels ! p i) [0..<nat (sint n)],
            concat (map (\<lambda>i. [coords ! (3 * p i), coords ! (3 * p i + 1), coords ! (3 * p i + 2)])
                      [0..<nat (sint n)])))"
proof -
  define N where "N = nat (sint n)"
  define r where "r = (\<lambda>j. the (record_of (lines ! j)))"
  define labels where "labels = map (\<lambda>j. label_of (r j)) [0..<N]"
  define coords where "coords = concat (map (\<lambda>j. coords_of (r j)) [0..<N])"
  have res: "process_lines_with_atoms lines n = Inr (labels, coords)"
    using well_formed_lines_result[OF assms] by (simp add: labels_def coords_def r_def N_def)
  have rec: "record_of (lines ! i) = Some (r i)" if "i < N" for i
    using that assms(4) by (auto simp: well_formed_def r_def N_def)
  have c: "coords ! (3 * i + k) = coords_of (r i) ! k" if "i < N" "k < 3" for i k
    unfolding coords_def using length_coords_of that by (intro concat_triples_nth) auto
  have c0: "coords ! (3 * i) = coords_of (r i) ! 0" if "i < N" for i
    using c[OF that, of 0] by simp
  have l: "labels ! i = label_of (r i)" if "i < N" for i
    using that by (simp add: labels_def)
  have len: "length labels = N" "length coords = 3 * N"
    by (simp_all add: labels_def coords_def length_concat_triples length_coords_of)
  have fields: "labels ! i = tokens (lines ! i) ! 0 \<and>
       float_of_token (tokens (lines ! i) ! 1) = Some (coords ! (3 * i)) \<and>
       float_of_token (tokens (lines ! i) ! 2) = Some (coords ! (3 * i + 1)) \<and>
       float_of_token (tokens (lines ! i) ! 3) = Some (coords ! (3 * i + 2))" if "i < N" for i
    using record_of_SomeD[OF rec[OF that]] l[OF that] c0[OF that] c[OF that, of 1] c[OF that, of 2]
    by simp
  have perm: "process_lines_with_atoms (map (\<lambda>i. lines ! p i) [0..<N]) n =
       Inr (map (\<lambda>i. labels ! p i) [0..<N],
            concat (map (\<lambda>i. [coords ! (3 * p i), coords ! (3 * p i + 1), coords ! (3 * p i + 2)]) [0..<N]))"
    if p: "\<forall>i < N. p i < N" for p
  proof -
    let ?lines = "map (\<lambda>i. lines ! p i) [0..<N]"
    have "nat (sint n) \<le> length ?lines" by (simp add: N_def)
    moreover have "\<forall>i < nat (sint n). well_formed (?lines ! i)"
      using assms(4) p by (simp add: N_def)
    ultimately have "process_lines_with_atoms ?lines n =
       Inr (map (\<lambda>j. label_of (the (record_of (?lines ! j)))) [0..<N],
            concat (map (\<lambda>j. coords_of (the (record_of (?lines ! j)))) [0..<N]))"
      using well_formed_lines_result[OF assms(1,2), of ?lines] by (simp add: N_def)
    note res' = this
    have m1: "map (\<lambda>j. label_of (the (record_of (?lines ! j)))) [0..<N] = map (\<lambda>i. labels ! p i) [0..<N]"
      using p l by (simp add: r_def)
    have "coords_of (the (record_of (?lines ! j))) =
        [coords ! (3 * p j), coords ! (3 * p j + 1), coords ! (3 * p j + 2)]" if "j < N" for j
    proof -
      from that p have pj: "p j < N" by simp
      obtain a x y z where "r (p j) = (a, x, y, z)" by (cases "r (p j)") auto
      then have "coords_of (r (p j)) = [coords_of (r (p j)) ! 0, coords_of (r (p j)) ! 1, coords_of (r (p j)) ! 2]"
        by (simp add: coords_of_def)
      with that c0[OF pj] c[OF pj, of 1] c[OF pj, of 2] show ?thesis
        by (simp add: r_def)
    qed
    then have m2: "map (\<lambda>j. coords_of (the (record_of (?lines ! j)))) [0..<N] =
        map (\<lambda>i. [coords ! (3 * p i), coords ! (3 * p i + 1), coords ! (3 * p i + 2)]) [0..<N]"
      by (intro map_cong) auto
    show ?thesis
      by (simp only: res' m1 m2)
  qed
  show ?thesis
    using res len fields perm unfolding N_def by blast
qed

theorem well_formed_lines_are_parsed_witness:
  "0 \<le> sint (2 :: 32 word) \<and> sint (2 :: 32 word) * 3 \<le> INT_MAX \<and>
   well_formed ''O 0.000 0.000 0.000'' \<and> well_formed ''H 0.957 0.000 0.000 x'' \<and>
   (\<exists>labels coords.
      process_lines_with_atoms [''O 0.000 0.000 0.000'', ''H 0.957 0.000 0.000 x''] 2 =
        Inr (labels, coords) \<and>
      length labels = 2 \<and> length coords = 6 \<and>
      labels ! 1 = ''H'' \<and> float_of_token ''0.957'' = Some (coords ! 3) \<and>
      process_lines_with_atoms [''H 0.957 0.000 0.000 x'', ''O 0.000 0.000 0.000''] 2 =
        Inr ([labels ! 1, labels ! 0],
             [coords ! 3, coords ! 4, coords ! 5, coords ! 0, coords ! 1, coords ! 2]))"
proof -
  let ?lines = "[''O 0.000 0.000 0.000'', ''H 0.957 0.000 0.000 x'']"
  have n: "nat (sint (2 :: 32 word)) = 2" by simp
  have h1: "0 \<le> sint (2 :: 32 word)" by simp
  have h2: "sint (2 :: 32 word) * 3 \<le> INT_MAX" by (simp add: INT_MAX_def)
  have h3: "nat (sint (2 :: 32 word)) \<le> length ?lines" by simp
  have w0: "well_formed ''O 0.000 0.000 0.000''" by code_simp
  have w1: "well_formed ''H 0.957 0.000 0.000 x''" by code_simp
  have h4: "\<forall>i < nat (sint (2 :: 32 word)). well_formed (?lines ! i)"
    unfolding n using w0 w1 by (simp add: less_Suc_eq numeral_2_eq_2)
  have tk: "tokens ''H 0.957 0.000 0.000 x'' = [''H'', ''0.957'', ''0.000'', ''0.000'', ''x'']"
    by code_simp
  from well_formed_lines_are_parsed[OF h1 h2 h3 h4] obtain labels coords where
    r: "process_lines_with_atoms ?lines 2 = Inr (labels, coords)"
    and len: "length labels = nat (sint (2 :: 32 word))" "length coords = 3 * nat (sint (2 :: 32 word))"
    and f: "\<forall>i < nat (sint (2 :: 32 word)).
       labels ! i = tokens (?lines ! i) ! 0 \<and>
       float_of_token (tokens (?lines ! i) ! 1) = Some (coords ! (3 * i)) \<and>
       float_of_token (tokens (?lines ! i) ! 2) = Some (coords ! (3 * i + 1)) \<and>
       float_of_token (tokens (?lines ! i) ! 3) = Some (coords ! (3 * i + 2))"
    and p: "\<forall>p. (\<forall>i < nat (sint (2 :: 32 word)). p i < nat (sint (2 :: 32 word))) \<longrightarrow>
       process_lines_with_atoms (map (\<lambda>i. ?lines ! p i) [0..<nat (sint (2 :: 32 word))]) 2 =
       Inr (map (\<lambda>i. labels ! p i) [0..<nat (sint (2 :: 32 word))],
            concat (map (\<lambda>i. [coords ! (3 * p i), coords ! (3 * p i + 1), coords ! (3 * p i + 2)])
                      [0..<nat (sint (2 :: 32 word))]))"
    by blast
  have f1: "labels ! 1 = ''H''" "float_of_token ''0.957'' = Some (coords ! 3)"
    using f[unfolded n, rule_format, of 1] by (simp_all add: tk)
  have up: "[0..<2] = [0, Suc 0]" by (simp add: numeral_2_eq_2)
  have sw: "\<forall>i < nat (sint (2 :: 32 word)). (\<lambda>i. 1 - i) i < nat (sint (2 :: 32 word))"
    unfolding n by auto
  from mp[OF spec[OF p, of "\<lambda>i. 1 - i"] sw] have
    "process_lines_with_atoms [''H 0.957 0.000 0.000 x'', ''O 0.000 0.000 0.000''] 2 =
        Inr ([labels ! 1, labels ! 0],
             [coords ! 3, coords ! 4, coords ! 5, coords ! 0, coords ! 1, coords ! 2])"
    unfolding n up by (simp add: numeral_2_eq_2)
  with r len f1 h1 h2 w0 w1 show ?thesis
    unfolding n by simp
qed

text \<open>
  C1 as stated fails in two places.  For every \<open>n \<ge> 0\<close>: where \<open>n_atoms * 3\<close> leaves
  the range of \<open>int\<close> the call does not return; on 715827883 well-formed lines the
  product is 2147483649.  For every line of a label and three decimal literals: a literal
  beyond the range of \<open>float\<close> is not stored as the infinity that is its value, the
  extraction fails on it.
\<close>

theorem well_formed_lines_counterexample:
  "well_formed ''H 0 0 0'' \<and>
   length (replicate 715827883 ''H 0 0 0'') = 715827883 \<and>
   sint (715827883 :: 32 word) = 715827883 \<and>
   process_lines_with_atoms (replicate 715827883 ''H 0 0 0'') 715827883 =
     Inl (Undefined Signed_integer_overflow) \<and>
   tokens ''H 1e39 0 0'' = [''H'', ''1e39'', ''0'', ''0''] \<and>
   map decimal_literal [''1e39'', ''0'', ''0''] =
     [Some (Infinity False), Some (Float False 0 0), Some (Float False 0 0)] \<and>
   process_lines_with_atoms [''H 1e39 0 0''] 1 = Inl parse_error"
proof -
  have w: "well_formed ''H 0 0 0''" by code_simp
  have o: "tokens ''H 1e39 0 0'' = [''H'', ''1e39'', ''0'', ''0'']"
    "map decimal_literal [''1e39'', ''0'', ''0''] =
       [Some (Infinity False), Some (Float False 0 0), Some (Float False 0 0)]"
    "process_lines_with_atoms [''H 1e39 0 0''] 1 = Inl parse_error"
    by code_simp+
  have s: "sint (715827883 :: 32 word) = 715827883" by simp
  have h1: "0 \<le> sint (715827883 :: 32 word)" unfolding s by simp
  have h2: "INT_MAX < sint (715827883 :: 32 word) * 3" unfolding s by (simp add: INT_MAX_def)
  have l: "length (replicate 715827883 ''H 0 0 0'') = 715827883"
    by (rule length_replicate)
  have "process_lines_with_atoms (replicate 715827883 ''H 0 0 0'') 715827883 =
     Inl (Undefined Signed_integer_overflow)"
    unfolding process_lines_with_atoms_def by (rule process_overflow[OF h1 h2])
  with w l s o show ?thesis by blast
qed

text \<open>
  C2.  Whenever the call returns, for the record count \<open>n\<close>, the labels have exactly
  \<open>n\<close> elements and the coordinates exactly \<open>3 * n\<close>.
\<close>

theorem result_lengths:
  assumes "process_lines_with_atoms input n = Inr (labels, coords)"
  shows "int (length labels) = sint n \<and> int (length coords) = 3 * sint n"
proof -
  let ?u = "\<lambda>i::nat. (zero_float, zero_float, zero_float)"
  from assms have r: "process_lines_with_atoms_from ?u input n = Inr (labels, coords)"
    by (simp add: process_lines_with_atoms_def)
  from process_Inr_range[OF r] have n: "0 \<le> sint n" "sint n * 3 \<le> INT_MAX"
    by simp_all
  from r have "loop ?u input (nat (sint n)) 0
      (replicate (nat (sint n)) []) (replicate (3 * nat (sint n)) zero_float) = Inr (labels, coords)"
    by (simp add: process_loop[OF n])
  from loop_length[OF this] n(1) show ?thesis by simp
qed

theorem result_lengths_witness:
  "process_lines_with_atoms
     [''O 0.000 0.000 0.000'', ''H 0.957 0.000 0.000'', ''H -0.240 0.927 0.000''] 3 =
   Inr ([''O'', ''H'', ''H''],
        [Float False 0 0, Float False 0 0, Float False 0 0,
         Float False 16055796 (- 24), Float False 0 0, Float False 0 0,
         Float True 16106127 (- 26), Float False 15552479 (- 24), Float False 0 0]) \<and>
   int (length [''O'', ''H'', ''H'']) = sint (3 :: 32 word) \<and>
   int (length
        [Float False 0 0, Float False 0 0, Float False 0 0,
         Float False 16055796 (- 24), Float False 0 0, Float False 0 0,
         Float True 16106127 (- 26), Float False 15552479 (- 24), Float False 0 0]) =
     3 * sint (3 :: 32 word)"
proof -
  have h: "process_lines_with_atoms
     [''O 0.000 0.000 0.000'', ''H 0.957 0.000 0.000'', ''H -0.240 0.927 0.000''] 3 =
   Inr ([''O'', ''H'', ''H''],
        [Float False 0 0, Float False 0 0, Float False 0 0,
         Float False 16055796 (- 24), Float False 0 0, Float False 0 0,
         Float True 16106127 (- 26), Float False 15552479 (- 24), Float False 0 0])"
    by code_simp
  from result_lengths[OF h] h show ?thesis by blast
qed

text \<open>
  C3 (amended).  Let \<open>0 \<le> n\<close> with \<open>3 * n\<close> in the range of \<open>int\<close>, and let the input have
  at least \<open>n\<close> lines.  The call fails if and only if the extraction of a label and
  three \<open>float\<close>s fails on some line among the first \<open>n\<close>, and then with the parse error.
  If it fails, some line among the first \<open>n\<close> is not well-formed (it has fewer than four
  tokens, or its second, third or fourth token is no \<open>float\<close>).  It does fail when a line
  among the first \<open>n\<close> has fewer than four tokens of which those after the first are
  \<open>float\<close>s, and when the first of the second, third and fourth tokens of such a line
  that is no \<open>float\<close> does not begin with a number.  A failure at line \<open>i\<close> is the result
  on the input cut off after line \<open>i\<close> as well: the call stops there, and an error carries
  no labels or coordinates.
\<close>

theorem parse_failure:
  assumes "0 \<le> sint n" and "sint n * 3 \<le> INT_MAX" and "nat (sint n) \<le> length lines"
  shows
    "((\<exists>e. process_lines_with_atoms lines n = Inl e) \<longleftrightarrow>
        (\<exists>i < nat (sint n). parse_line (lines ! i) = None)) \<and>
     (\<forall>e. process_lines_with_atoms lines n = Inl e \<longrightarrow>
        e = parse_error \<and> (\<exists>i < nat (sint n). \<not> well_formed (lines ! i))) \<and>
     (\<forall>i < nat (sint n).
        length (tokens (lines ! i)) < 4 \<and>
        list_all (\<lambda>t. float_of_token t \<noteq> None) (tl (tokens (lines ! i))) \<longrightarrow>
        parse_line (lines ! i) = None) \<and>
     (\<forall>i < nat (sint n). nonnumeric_field (lines ! i) \<longrightarrow> parse_line (lines ! i) = None) \<and>
     ((\<exists>i < nat (sint n).
         (length (tokens (lines ! i)) < 4 \<and>
          list_all (\<lambda>t. float_of_token t \<noteq> None) (tl (tokens (lines ! i)))) \<or>
         nonnumeric_field (lines ! i)) \<longrightarrow>
      process_lines_with_atoms lines n = Inl parse_error) \<and>
     (\<forall>i < nat (sint n).
        parse_line (lines ! i) = None \<longrightarrow>
        process_lines_with_atoms (take (Suc i) lines) n = Inl parse_error)"
proof -
  note iff = process_fails_iff[OF assms]
  have wf: "\<exists>i < nat (sint n). \<not> well_formed (lines ! i)"
    if "process_lines_with_atoms lines n = Inl e" for e
  proof -
    from that iff(1) obtain i where "i < nat (sint n)" "parse_line (lines ! i) = None"
      by blast
    moreover from this have "\<not> well_formed (lines ! i)"
      using well_formed_parse_line[of "lines ! i"] by force
    ultimately show ?thesis by blast
  qed
  have at: "process_lines_with_atoms (take (Suc i) lines) n = Inl parse_error"
    if "i < nat (sint n)" "parse_line (lines ! i) = None" for i
    using process_fails_at[OF assms(1,2) that(1) _ that(2)] that(1) assms(3) by simp
  have call: "process_lines_with_atoms lines n = Inl parse_error"
    if "i < nat (sint n)" "parse_line (lines ! i) = None" for i
    using iff that by blast
  have bad: "process_lines_with_atoms lines n = Inl parse_error"
    if "\<exists>i < nat (sint n).
         (length (tokens (lines ! i)) < 4 \<and>
          list_all (\<lambda>t. float_of_token t \<noteq> None) (tl (tokens (lines ! i)))) \<or>
         nonnumeric_field (lines ! i)"
    using that call parse_line_too_few parse_line_nonnumeric by blast
  show ?thesis
    using iff wf at bad parse_line_too_few parse_line_nonnumeric by blast
qed

theorem parse_failure_witness:
  "0 \<le> sint (1 :: 32 word) \<and> sint (1 :: 32 word) * 3 \<le> INT_MAX \<and>
   nat (sint (1 :: 32 word)) \<le> length [''O 0.000 0.000''] \<and>
   length (tokens ''O 0.000 0.000'') < 4 \<and>
   list_all (\<lambda>t. float_of_token t \<noteq> None) (tl (tokens ''O 0.000 0.000'')) \<and>
   parse_line ''O 0.000 0.000'' = None \<and>
   process_lines_with_atoms [''O 0.000 0.000''] 1 = Inl parse_error \<and>
   nat (sint (1 :: 32 word)) \<le> length [''C 1.0 abc 3.0''] \<and>
   tokens ''C 1.0 abc 3.0'' = [''C'', ''1.0'', ''abc'', ''3.0''] \<and>
   nonnumeric_field ''C 1.0 abc 3.0'' \<and>
   parse_line ''C 1.0 abc 3.0'' = None \<and>
   process_lines_with_atoms [''C 1.0 abc 3.0''] 1 = Inl parse_error"
proof -
  have h1: "0 \<le> sint (1 :: 32 word)" by simp
  have h2: "sint (1 :: 32 word) * 3 \<le> INT_MAX" by (simp add: INT_MAX_def)
  have h3: "nat (sint (1 :: 32 word)) \<le> length [''O 0.000 0.000'']" by simp
  have h3': "nat (sint (1 :: 32 word)) \<le> length [''C 1.0 abc 3.0'']" by simp
  have tk: "tokens ''O 0.000 0.000'' = [''O'', ''0.000'', ''0.000'']" by code_simp
  have fl: "float_of_token ''0.000'' = Some (Float False 0 0)" by code_simp
  have few: "length (tokens ''O 0.000 0.000'') < 4"
    "list_all (\<lambda>t. float_of_token t \<noteq> None) (tl (tokens ''O 0.000 0.000''))"
    by (simp_all add: tk fl)
  have tk': "tokens ''C 1.0 abc 3.0'' = [''C'', ''1.0'', ''abc'', ''3.0'']" by code_simp
  have nn: "nonnumeric_field ''C 1.0 abc 3.0''" by code_simp
  note t = parse_failure[OF h1 h2 h3]
  note t' = parse_failure[OF h1 h2 h3']
  from t few have p: "parse_line ''O 0.000 0.000'' = None"
    by simp
  with t have c: "process_lines_with_atoms [''O 0.000 0.000''] 1 = Inl parse_error"
    by simp
  from t' nn have p': "parse_line ''C 1.0 abc 3.0'' = None"
    by simp
  from t' nn have c': "process_lines_with_atoms [''C 1.0 abc 3.0''] 1 = Inl parse_error"
    by simp
  from h1 h2 h3 h3' few p c tk' nn p' c' show ?thesis by blast
qed

text \<open>
  C3 as stated fails: a line of three whitespace-separated tokens, the third of which is
  no \<open>float\<close>, is read, because the extraction of a \<open>float\<close> stops at the first character
  that cannot continue the number, and the next extraction goes on from there.
\<close>

theorem parse_failure_counterexample:
  "tokens ''C 1.0 2.0-3.0'' = [''C'', ''1.0'', ''2.0-3.0''] \<and>
   float_of_token ''2.0-3.0'' = None \<and>
   process_lines_with_atoms [''C 1.0 2.0-3.0''] 1 =
     Inr ([''C''], [Float False 8388608 (- 23), Float False 8388608 (- 22), Float True 12582912 (- 22)])"
  by code_simp

text \<open>
  C4 (amended).  Let \<open>0 \<le> n\<close> with \<open>3 * n\<close> in the range of \<open>int\<close>, and let the input have
  fewer than \<open>n\<close> lines.  The length of the input is not checked: the call throws the
  parse error if one of the lines there are is not read, and otherwise it comes to
  evaluate \<open>input[i]\<close> past the end of the vector, which is undefined behaviour: nothing
  is guaranteed of the call from there on, neither a failure nor a return.
\<close>

theorem short_input_is_not_checked:
  assumes "0 \<le> sint n" and "sint n * 3 \<le> INT_MAX" and "length lines < nat (sint n)"
  shows "process_lines_with_atoms lines n =
    (if \<exists>i < length lines. parse_line (lines ! i) = None then Inl parse_error
     else Inl (Undefined Index_out_of_bounds))"
  using assms(3)
  by (auto simp: process_lines_with_atoms_def process_result[OF assms(1,2)] min_def)

theorem short_input_is_not_checked_witness:
  "0 \<le> sint (2 :: 32 word) \<and> sint (2 :: 32 word) * 3 \<le> INT_MAX \<and>
   length [''O 0.000 0.000 0.000''] < nat (sint (2 :: 32 word)) \<and>
   parse_line ''O 0.000 0.000 0.000'' = Some (''O'', Float False 0 0, Float False 0 0, Float False 0 0) \<and>
   process_lines_with_atoms [''O 0.000 0.000 0.000''] 2 = Inl (Undefined Index_out_of_bounds)"
proof -
  have h1: "0 \<le> sint (2 :: 32 word)" by simp
  have h2: "sint (2 :: 32 word) * 3 \<le> INT_MAX" by (simp add: INT_MAX_def)
  have h3: "length [''O 0.000 0.000 0.000''] < nat (sint (2 :: 32 word))" by simp
  have p: "parse_line ''O 0.000 0.000 0.000'' = Some (''O'', Float False 0 0, Float False 0 0, Float False 0 0)"
    by code_simp
  from short_input_is_not_checked[OF h1 h2 h3] p
  have "process_lines_with_atoms [''O 0.000 0.000 0.000''] 2 = Inl (Undefined Index_out_of_bounds)"
    by simp
  with h1 h2 h3 p show ?thesis by blast
qed

text \<open>
  C4 as stated fails: on an input with fewer lines than \<open>n\<close>, all of them well-formed,
  no error is raised before the call reads past the end.
\<close>

theorem short_input_counterexample:
  "well_formed ''O 0.000 0.000 0.000'' \<and>
   process_lines_with_atoms [] 1 = Inl (Undefined Index_out_of_bounds) \<and>
   process_lines_with_atoms [''O 0.000 0.000 0.000''] 2 = Inl (Undefined Index_out_of_bounds)"
  by code_simp

text \<open>
  C5.  A line with more than four tokens, of which the first four are a label and three
  \<open>float\<close>s, is read as the record of its first four tokens; as the only line of a call
  it is the result; and replacing it by any line with the same first four tokens, with
  other tokens after them or none, leaves the result of a call unchanged.
\<close>

theorem trailing_tokens_are_ignored:
  assumes "i < length lines"
    and "tokens (lines ! i) = a # t1 # t2 # t3 # extra" and "extra \<noteq> []"
    and "float_of_token t1 = Some x" and "float_of_token t2 = Some y" and "float_of_token t3 = Some z"
    and "tokens line' = a # t1 # t2 # t3 # extra'"
  shows "parse_line (lines ! i) = Some (a, x, y, z) \<and>
         process_lines_with_atoms [lines ! i] 1 = Inr ([a], [x, y, z]) \<and>
         process_lines_with_atoms (lines[i := line']) n = process_lines_with_atoms lines n"
proof -
  have r: "record_of (lines ! i) = Some (a, x, y, z)" "record_of line' = Some (a, x, y, z)"
    using assms by (simp_all add: record_of_def)
  then have p: "parse_line (lines ! i) = Some (a, x, y, z)" "parse_line line' = Some (a, x, y, z)"
    by (simp_all add: parse_line_record)
  have one: "process_lines_with_atoms [lines ! i] 1 = Inr ([a], [x, y, z])"
  proof -
    have h: "0 \<le> sint (1 :: 32 word)" "sint (1 :: 32 word) * 3 \<le> INT_MAX"
      by (simp_all add: INT_MAX_def)
    show ?thesis
      unfolding process_lines_with_atoms_def process_result[OF h]
      using p(1) by (simp add: label_of_def coords_of_def)
  qed
  have "\<forall>j < length (lines[i := line']). parse_line (lines[i := line'] ! j) = parse_line (lines ! j)"
    using p assms(1) by (auto simp: nth_list_update)
  then have "process_lines_with_atoms (lines[i := line']) n = process_lines_with_atoms lines n"
    by (intro process_cong) simp_all
  with p(1) one show ?thesis by blast
qed

theorem trailing_tokens_are_ignored_witness:
  "tokens ''C 1.0 2.0 3.0 extra'' = [''C'', ''1.0'', ''2.0'', ''3.0'', ''extra''] \<and>
   parse_line ''C 1.0 2.0 3.0 extra'' =
     Some (''C'', Float False 8388608 (- 23), Float False 8388608 (- 22), Float False 12582912 (- 22)) \<and>
   process_lines_with_atoms [''C 1.0 2.0 3.0 extra''] 1 =
     Inr ([''C''], [Float False 8388608 (- 23), Float False 8388608 (- 22), Float False 12582912 (- 22)]) \<and>
   process_lines_with_atoms [''C 1.0 2.0 3.0''] 1 = process_lines_with_atoms [''C 1.0 2.0 3.0 extra''] 1"
proof -
  have tk: "tokens ([''C 1.0 2.0 3.0 extra''] ! 0) = ''C'' # ''1.0'' # ''2.0'' # ''3.0'' # [''extra'']"
    by code_simp
  have tk': "tokens ''C 1.0 2.0 3.0'' = ''C'' # ''1.0'' # ''2.0'' # ''3.0'' # []"
    by code_simp
  have f: "float_of_token ''1.0'' = Some (Float False 8388608 (- 23))"
    "float_of_token ''2.0'' = Some (Float False 8388608 (- 22))"
    "float_of_token ''3.0'' = Some (Float False 12582912 (- 22))"
    by code_simp+
  have i: "0 < length [''C 1.0 2.0 3.0 extra'']" and e: "[''extra''] \<noteq> []"
    by simp_all
  from trailing_tokens_are_ignored[OF i tk e f tk', of 1] tk show ?thesis
    by simp
qed

text \<open>
  C6.  With \<open>n = 0\<close> the call returns two empty sequences, whatever the input is: no
  line is read (on the empty input any read would be out of bounds).
\<close>

theorem zero_count_is_empty:
  "process_lines_with_atoms input 0 = Inr ([], [])"
  by (simp add: process_lines_with_atoms_def process_lines_with_atoms_from_def
      INT_MAX_def loop_unfold)

text \<open>
  C7.  Two inputs with at least \<open>n\<close> entries each that agree on their first \<open>n\<close>
  entries give the same result, be it a return or an error: the entries from index
  \<open>n\<close> on have no effect.
\<close>

theorem only_first_n_are_read:
  assumes "nat (sint n) \<le> length xs" and "nat (sint n) \<le> length ys"
    and "\<forall>i < nat (sint n). xs ! i = ys ! i"
  shows "process_lines_with_atoms xs n = process_lines_with_atoms ys n"
proof -
  from assms have "take (nat (sint n)) xs = take (nat (sint n)) ys"
    by (simp add: list_eq_iff_nth_eq)
  then show ?thesis
    unfolding process_lines_with_atoms_def
    by (metis process_take)
qed

theorem only_first_n_are_read_witness:
  "nat (sint (1 :: 32 word)) \<le> length [''O 1 2 3'', ''no record''] \<and>
   nat (sint (1 :: 32 word)) \<le> length [''O 1 2 3''] \<and>
   process_lines_with_atoms [''O 1 2 3'', ''no record''] 1 =
   process_lines_with_atoms [''O 1 2 3''] 1"
  using only_first_n_are_read[of 1 "[''O 1 2 3'', ''no record'']" "[''O 1 2 3'']"]
  by simp

text \<open>
  C8 (amended).  On every input and count for which the behaviour of the call is defined
  (a negative count; or \<open>3 * n\<close> in the range of \<open>int\<close> and an input that has at least
  \<open>n\<close> lines or a line on which the extraction fails), the result is a return or a thrown
  exception, and it is a function of the lines and the count alone: the function keeps no
  state, and the only indeterminate values it has, the uninitialised \<open>x\<close>, \<open>y\<close>,
  \<open>z\<close> of each iteration, never reach the result.  Two calls with the same such inputs
  give the same return or the same error.
\<close>

theorem deterministic:
  assumes "behaviour_defined input n"
  shows "process_lines_with_atoms_from u input n = process_lines_with_atoms_from u' input n \<and>
         (\<forall>b. process_lines_with_atoms_from u input n \<noteq> Inl (Undefined b))"
  using assms undefined_behaviour_iff[of u input n] process_lines_with_atoms_from_any[of u input n u']
  by blast

theorem deterministic_witness:
  "behaviour_defined [''H 1 2 3''] 1 \<and>
   process_lines_with_atoms_from (\<lambda>i. (Infinity True, FLT_MAX False, Float True 1 0)) [''H 1 2 3''] 1 =
   process_lines_with_atoms_from (\<lambda>i. (zero_float, zero_float, zero_float)) [''H 1 2 3''] 1 \<and>
   process_lines_with_atoms_from (\<lambda>i. (Infinity True, FLT_MAX False, Float True 1 0)) [''H 1 2 3''] 1 \<noteq>
     Inl (Undefined Index_out_of_bounds)"
proof -
  have d: "behaviour_defined [''H 1 2 3''] 1"
    by (simp add: behaviour_defined_def INT_MAX_def)
  from deterministic[OF d] d show ?thesis by blast
qed

text \<open>
  C8 as stated, for every input and count, fails where the call reaches undefined
  behaviour (a read past the end of the input, an overflow of \<open>n_atoms * 3\<close>): the
  language then defines neither an output nor an error, and two calls need not agree.
\<close>

theorem deterministic_counterexample:
  "process_lines_with_atoms [''H 1 2 3''] 2 = Inl (Undefined Index_out_of_bounds) \<and>
   process_lines_with_atoms [''H 1 2 3''] 715827883 = Inl (Undefined Signed_integer_overflow)"
proof -
  have a: "process_lines_with_atoms [''H 1 2 3''] 2 = Inl (Undefined Index_out_of_bounds)"
    by code_simp
  have s: "sint (715827883 :: 32 word) = 715827883" by simp
  have h1: "0 \<le> sint (715827883 :: 32 word)" unfolding s by simp
  have h2: "INT_MAX < sint (715827883 :: 32 word) * 3" unfolding s by (simp add: INT_MAX_def)
  have "process_lines_with_atoms [''H 1 2 3''] 715827883 = Inl (Undefined Signed_integer_overflow)"
    unfolding process_lines_with_atoms_def by (rule process_overflow[OF h1 h2])
  with a show ?thesis by blast
qed

text \<open>
  C9.  A negative count is not checked for: constructing \<open>atoms\<close> from it throws, before
  any line is parsed, so that the result does not depend on the lines.
\<close>

theorem negative_count_throws:
  "sint n < 0 \<Longrightarrow> process_lines_with_atoms input n = Inl (Thrown Length_error)"
  by (simp add: process_lines_with_atoms_def process_negative)

theorem negative_count_throws_witness:
  "sint (- 1 :: 32 word) < 0 \<and>
   process_lines_with_atoms [''no record''] (- 1) = Inl (Thrown Length_error)"
  using negative_count_throws[of "- 1" "[''no record'']"] by simp

text \<open>
  C10 (amended).  The coordinates are read by the stream's extraction of a \<open>float\<close>, not
  as whole tokens.  On every line whose second and third tokens are \<open>float\<close>s and whose
  fourth token is a \<open>float\<close> followed immediately by a character that no number contains
  (no digit, point, exponent marker or sign), the fourth token is no decimal literal,
  and the line is read all the same: the call returns the value of the number before that
  character.
\<close>

theorem extraction_reads_a_numeric_prefix:
  assumes "tokens line = a # t1 # t2 # (t3 @ junk) # rest"
    and "float_of_token t1 = Some x" and "float_of_token t2 = Some y" and "float_of_token t3 = Some z"
    and "junk \<noteq> []" and "\<not> numeric_char (hd junk)"
  shows "float_of_token (t3 @ junk) = None \<and>
         parse_line line = Some (a, x, y, z) \<and>
         process_lines_with_atoms [line] 1 = Inr ([a], [x, y, z])"
  using not_float_with_other_char[OF assms(5,6)] parse_line_numeric_prefix[OF assms]
    process_single[OF parse_line_numeric_prefix[OF assms]]
  by blast

theorem extraction_reads_a_numeric_prefix_witness:
  "tokens ''C 1.0 2.0 3.0zzz'' = [''C'', ''1.0'', ''2.0'', ''3.0'' @ ''zzz''] \<and>
   \<not> numeric_char (hd ''zzz'') \<and>
   float_of_token ''3.0zzz'' = None \<and>
   process_lines_with_atoms [''C 1.0 2.0 3.0zzz''] 1 =
     Inr ([''C''], [Float False 8388608 (- 23), Float False 8388608 (- 22), Float False 12582912 (- 22)])"
proof -
  have tk: "tokens ''C 1.0 2.0 3.0zzz'' = ''C'' # ''1.0'' # ''2.0'' # (''3.0'' @ ''zzz'') # []"
    by code_simp
  have f: "float_of_token ''1.0'' = Some (Float False 8388608 (- 23))"
    "float_of_token ''2.0'' = Some (Float False 8388608 (- 22))"
    "float_of_token ''3.0'' = Some (Float False 12582912 (- 22))"
    by code_simp+
  have j: "''zzz'' \<noteq> []" "\<not> numeric_char (hd ''zzz'')"
    by (simp_all add: numeric_char_def isdigit_def is_e_def is_sign_def)
  from extraction_reads_a_numeric_prefix[OF tk f j] tk j show ?thesis
    by simp
qed

text \<open>
  C10 as stated names the tokens \<open>inf\<close> and \<open>nan\<close> among the inputs on which the call
  succeeds.  No character of them is accumulated by the extraction, the conversion fails,
  and the call throws.
\<close>

theorem extraction_counterexample:
  "tokens ''C 1.0 2.0 inf'' = [''C'', ''1.0'', ''2.0'', ''inf''] \<and>
   process_lines_with_atoms [''C 1.0 2.0 inf''] 1 = Inl parse_error \<and>
   tokens ''C 1.0 2.0 nan'' = [''C'', ''1.0'', ''2.0'', ''nan''] \<and>
   process_lines_with_atoms [''C 1.0 2.0 nan''] 1 = Inl parse_error"
  by code_simp

end
